theory Spec2Isabelle
  imports Main "HOL-Library.Word"
begin

unbundle bit_operations_syntax

section \<open>Data model of multicast_mla.c\<close>

text \<open>
  A link-layer address is the \<^verbatim>\<open>uint8_t addr[ETH_ALEN]\<close> buffer of the source: six
  bytes. \<^verbatim>\<open>memcmp(a, b, ETH_ALEN) == 0\<close> is equality of two such values, and
  \<^verbatim>\<open>memcpy(dst, src, ETH_ALEN)\<close> copies one. Values the kernel keeps in network
  byte order (\<^verbatim>\<open>__be16\<close>, \<^verbatim>\<open>__be32\<close>, \<^verbatim>\<open>struct in6_addr\<close>) are the lists of their
  bytes in memory order, so that the byte-wise \<^verbatim>\<open>memcpy\<close> of the source reads them
  as the C code does on any host.

  Locks, RCU sections and reference counts (\<^verbatim>\<open>dev_hold\<close>, \<^verbatim>\<open>dev_put\<close>,
  \<^verbatim>\<open>batadv_hardif_free_ref\<close>) change nothing the functions below compute and are left
  out, as are \<^verbatim>\<open>batadv_mcast_mla_len\<close> and the two functions that print the lists. A
  linked list is the list of its entries from the head on: \<^verbatim>\<open>list_add\<close> puts an entry
  in front, \<^verbatim>\<open>list_move_tail\<close> appends it.
\<close>

type_synonym u8 = "8 word"
type_synonym be16 = "u8 list"
type_synonym be32 = "u8 list"
type_synonym in6_addr = "u8 list"

datatype mac = Mac u8 u8 u8 u8 u8 u8

definition ENOMEM :: int where
  "ENOMEM = 12"

definition UINT8_MAX :: int where
  "UINT8_MAX = 255"

definition BATADV_MLA_MAX :: int where
  "BATADV_MLA_MAX = UINT8_MAX"

definition ETH_P_IP :: "16 word" where
  "ETH_P_IP = 0x0800"

definition ETH_P_IPV6 :: "16 word" where
  "ETH_P_IPV6 = 0x86DD"

text \<open>
  \<^verbatim>\<open>struct br_ip\<close>: the union \<^verbatim>\<open>u\<close> (its sixteen bytes of memory; \<^verbatim>\<open>u.ip4\<close> is the
  first four, \<^verbatim>\<open>u.ip6\<close> all of them) and the protocol family \<^verbatim>\<open>proto\<close>.
\<close>

record br_ip =
  u :: "u8 list"
  proto :: be16

text \<open>
  \<^verbatim>\<open>struct net_device\<close>, as far as this file reads it: the master device
  (\<^verbatim>\<open>dev->master\<close>, \<^verbatim>\<open>NULL\<close> is \<open>None\<close>), the hardware multicast list walked by
  \<^verbatim>\<open>netdev_for_each_mc_addr\<close>, the IPv6 multicast groups joined on the device
  (\<^verbatim>\<open>__in6_dev_get(dev)->mc_list\<close>, \<open>None\<close> when the device has no \<^verbatim>\<open>inet6_dev\<close>) and
  the IPv4 ones (\<^verbatim>\<open>__in_dev_get_rcu(dev)->mc_list\<close>). The last field is the state of
  the bridge the device is a port of, as the file sees it: what the bridge's snooping
  query answers for this port, a return value and the list of groups it fetched.
\<close>

datatype net_device =
  Net_device (master: "net_device option") (mc: "mac list")
    (ip6_ptr: "in6_addr list option") (ip_ptr: "be32 list option")
    (br_adjacent: "int \<times> br_ip list")

record batadv_hard_iface =
  soft_iface :: net_device

text \<open>
  The translation table is not part of this file; the engine reaches it only through
  \<^verbatim>\<open>batadv_tt_local_add\<close> and \<^verbatim>\<open>batadv_tt_local_remove\<close>. The model keeps the calls
  issued so far, oldest first: the table is unchanged exactly when no call is appended.
\<close>

datatype tt_call = Tt_local_add mac | Tt_local_remove mac

record batadv_priv =
  mla_list :: "mac list"
  tt :: "tt_call list"
  mcast_group_awareness :: int
  primary_if :: "batadv_hard_iface option"

text \<open>
  The kernel services the file uses: \<^verbatim>\<open>kmalloc\<close>, whose call number \<open>n\<close> (from 0)
  fails iff \<open>n \<in> kmalloc_fails\<close>, \<^verbatim>\<open>kfree\<close> (counted) and the messages of \<^verbatim>\<open>pr_warn\<close>.
\<close>

datatype warning = Too_many_local int | Too_many_local_bridge int

record kernel =
  kmalloc_fails :: "nat set"
  kmalloc_calls :: nat
  kfree_calls :: nat
  printk :: "warning list"

definition kmalloc :: "kernel \<Rightarrow> bool \<times> kernel" where
  "kmalloc k = (kmalloc_calls k \<notin> kmalloc_fails k, k\<lparr>kmalloc_calls := Suc (kmalloc_calls k)\<rparr>)"

definition kfree :: "kernel \<Rightarrow> kernel" where
  "kfree k = k\<lparr>kfree_calls := Suc (kfree_calls k)\<rparr>"

definition pr_warn :: "warning \<Rightarrow> kernel \<Rightarrow> kernel" where
  "pr_warn w k = k\<lparr>printk := printk k @ [w]\<rparr>"

text \<open>
  The two build options the file tests with \<^verbatim>\<open>#ifdef\<close> and \<^verbatim>\<open>IS_ENABLED\<close>.
\<close>

record config =
  CONFIG_BATMAN_ADV_MCAST_BRIDGE_SNOOP :: bool
  CONFIG_IPV6 :: bool

section \<open>Kernel helpers the file calls\<close>

text \<open>
  Modelled from the spec: \<^verbatim>\<open>htons\<close> and \<^verbatim>\<open>ntohl\<close> are kernel macros, not in the source
  file. \<open>htons x\<close> is the two bytes of \<open>x\<close> in network order; \<open>ntohl\<close> reads four
  network-order bytes as a number.
\<close>

definition htons :: "16 word \<Rightarrow> be16" where
  "htons x = [ucast (drop_bit 8 x), ucast x]"

definition ntohl :: "be32 \<Rightarrow> 32 word" where
  "ntohl n =
     push_bit 24 (ucast (n ! 0)) OR push_bit 16 (ucast (n ! 1)) OR
     push_bit 8 (ucast (n ! 2)) OR ucast (n ! 3)"

text \<open>
  Modelled from the spec: \<^verbatim>\<open>ip_eth_mc_map\<close> and \<^verbatim>\<open>ipv6_eth_mc_map\<close> are inline functions
  of the kernel headers, not in the source file: the standard IPv4 (RFC 1112) mapping
  \<^verbatim>\<open>01:00:5e\<close> followed by the low 23 bits of the group, and the IPv6 (RFC 2464) mapping
  \<^verbatim>\<open>33:33\<close> followed by the last four bytes of the group.
\<close>

definition ip_eth_mc_map :: "be32 \<Rightarrow> mac" where
  "ip_eth_mc_map naddr =
     (let addr = ntohl naddr in
      Mac 0x01 0x00 0x5e
        (ucast (drop_bit 16 addr AND 0x7F)) (ucast (drop_bit 8 addr AND 0xFF))
        (ucast (addr AND 0xFF)))"

definition ipv6_eth_mc_map :: "in6_addr \<Rightarrow> mac" where
  "ipv6_eth_mc_map addr = Mac 0x33 0x33 (addr ! 12) (addr ! 13) (addr ! 14) (addr ! 15)"

text \<open>
  Modelled from the spec: \<^verbatim>\<open>IPV6_ADDR_MC_FLAG_TRANSIENT\<close> and \<^verbatim>\<open>ipv4_is_local_multicast\<close>
  are kernel helpers, not in the source file: the transient (not well-known) flag is bit
  \<^verbatim>\<open>0x10\<close> of the second byte of an IPv6 multicast address, and the link-local IPv4
  groups are 224.0.0.0/24.
\<close>

definition IPV6_ADDR_MC_FLAG_TRANSIENT :: "in6_addr \<Rightarrow> bool" where
  "IPV6_ADDR_MC_FLAG_TRANSIENT a = ((a ! 1) AND 0x10 \<noteq> 0)"

definition ipv4_is_local_multicast :: "be32 \<Rightarrow> bool" where
  "ipv4_is_local_multicast addr = (ntohl addr AND 0xffffff00 = 0xe0000000)"

text \<open>
  Modelled from the spec: \<^verbatim>\<open>br_multicast_list_adjacent\<close> belongs to the bridge code, not
  to the source file. It returns a negative error or a count, and fills the caller's
  list with the groups snooped on the other ports of the device's bridge.
\<close>

definition br_multicast_list_adjacent :: "net_device \<Rightarrow> int \<times> br_ip list" where
  "br_multicast_list_adjacent dev = br_adjacent dev"

section \<open>Address conversion and classification\<close>

text \<open>
  \<^verbatim>\<open>batadv_mcast_mla_br_addr_cpy\<close>: the result is the destination buffer. The IPv4
  branch copies bytes 1 to 3 of \<^verbatim>\<open>u.ip4\<close> behind \<^verbatim>\<open>01:00:5e\<close> and clears the top bit of
  \<^verbatim>\<open>dst[3]\<close>; the IPv6 branch, compiled only with \<^verbatim>\<open>CONFIG_IPV6\<close>, copies
  \<^verbatim>\<open>s6_addr32[3]\<close> (bytes 12 to 15) behind \<^verbatim>\<open>33:33\<close>; anything else is \<^verbatim>\<open>memset\<close> to zero.
\<close>

definition batadv_mcast_mla_br_addr_cpy :: "config \<Rightarrow> br_ip \<Rightarrow> mac" where
  "batadv_mcast_mla_br_addr_cpy cfg src =
     (if proto src = htons ETH_P_IP then
        Mac 0x01 0x00 0x5e ((u src ! 1) AND 0x7F) (u src ! 2) (u src ! 3)
      else if CONFIG_IPV6 cfg \<and> proto src = htons ETH_P_IPV6 then
        Mac 0x33 0x33 (u src ! 12) (u src ! 13) (u src ! 14) (u src ! 15)
      else Mac 0 0 0 0 0 0)"

text \<open>
  The loop of \<^verbatim>\<open>batadv_mcast_mla_has_transient_ipv6\<close> over \<^verbatim>\<open>idev->mc_list\<close>, and the
  function: no \<^verbatim>\<open>inet6_dev\<close> gives 0.
\<close>

fun has_transient_ipv6_loop :: "mac \<Rightarrow> in6_addr list \<Rightarrow> bool" where
  "has_transient_ipv6_loop addr [] = False"
| "has_transient_ipv6_loop addr (mca_addr # next) =
     (if addr \<noteq> ipv6_eth_mc_map mca_addr then has_transient_ipv6_loop addr next
      else if IPV6_ADDR_MC_FLAG_TRANSIENT mca_addr then True
      else has_transient_ipv6_loop addr next)"

definition batadv_mcast_mla_has_transient_ipv6 :: "mac \<Rightarrow> net_device \<Rightarrow> bool" where
  "batadv_mcast_mla_has_transient_ipv6 addr dev =
     (case ip6_ptr dev of
        None \<Rightarrow> False
      | Some mc_list \<Rightarrow> has_transient_ipv6_loop addr mc_list)"

fun has_non_ll_ipv4_loop :: "mac \<Rightarrow> be32 list \<Rightarrow> bool" where
  "has_non_ll_ipv4_loop addr [] = False"
| "has_non_ll_ipv4_loop addr (multiaddr # next) =
     (if addr \<noteq> ip_eth_mc_map multiaddr then has_non_ll_ipv4_loop addr next
      else if ipv4_is_local_multicast multiaddr then has_non_ll_ipv4_loop addr next
      else True)"

definition batadv_mcast_mla_has_non_ll_ipv4 :: "mac \<Rightarrow> net_device \<Rightarrow> bool" where
  "batadv_mcast_mla_has_non_ll_ipv4 addr dev =
     (case ip_ptr dev of
        None \<Rightarrow> False
      | Some mc_list \<Rightarrow> has_non_ll_ipv4_loop addr mc_list)"

text \<open>
  \<^verbatim>\<open>batadv_mcast_mla_has_unspecial_addr\<close>: the two \<^verbatim>\<open>memcmp\<close> tests on the first two
  and the first three bytes, in the order of the source.
\<close>

fun batadv_mcast_mla_has_unspecial_addr :: "mac \<Rightarrow> net_device \<Rightarrow> bool" where
  "batadv_mcast_mla_has_unspecial_addr (Mac a0 a1 a2 a3 a4 a5) dev =
     (if a0 = 0x33 \<and> a1 = 0x33 then
        batadv_mcast_mla_has_transient_ipv6 (Mac a0 a1 a2 a3 a4 a5) dev
      else if a0 = 0x01 \<and> a1 = 0x00 \<and> a2 = 0x5E then
        batadv_mcast_mla_has_non_ll_ipv4 (Mac a0 a1 a2 a3 a4 a5) dev
      else False)"

section \<open>The collectors\<close>

text \<open>
  \<^verbatim>\<open>batadv_mcast_mla_local_collect\<close>. The loop walks the hardware multicast list of
  the device; its state is the caller's list (\<^verbatim>\<open>list_add\<close> puts a new entry at the
  head), \<^verbatim>\<open>num_mla\<close>, \<^verbatim>\<open>ret\<close> and the kernel. A \<^verbatim>\<open>break\<close> ends the recursion.
\<close>

fun local_collect_loop ::
  "net_device \<Rightarrow> int \<Rightarrow> mac list \<Rightarrow> mac list \<Rightarrow> int \<Rightarrow> int \<Rightarrow> kernel
    \<Rightarrow> mac list \<times> int \<times> int \<times> kernel" where
  "local_collect_loop dev num_mla_max [] mcast_list num_mla ret k =
     (mcast_list, num_mla, ret, k)"
| "local_collect_loop dev num_mla_max (mc_list_entry # next) mcast_list num_mla ret k =
     (if num_mla \<ge> num_mla_max then
        (mcast_list, num_mla, ret, pr_warn (Too_many_local num_mla_max) k)
      else if \<not> batadv_mcast_mla_has_unspecial_addr mc_list_entry dev then
        local_collect_loop dev num_mla_max next mcast_list num_mla ret k
      else
        (case kmalloc k of
           (new, k') \<Rightarrow>
             if \<not> new then (mcast_list, num_mla, - ENOMEM, k')
             else local_collect_loop dev num_mla_max next
                    (mc_list_entry # mcast_list) (num_mla + 1) ret k'))"

definition batadv_mcast_mla_local_collect ::
  "net_device \<Rightarrow> mac list \<Rightarrow> int \<Rightarrow> kernel \<Rightarrow> int \<times> mac list \<times> kernel" where
  "batadv_mcast_mla_local_collect dev0 mcast_list num_mla_max k =
     (let dev = (case master dev0 of Some m \<Rightarrow> m | None \<Rightarrow> dev0) in
      case local_collect_loop dev num_mla_max (mc dev) mcast_list 0 0 k of
        (mcast_list', num_mla, ret, k') \<Rightarrow>
          (if ret < 0 then ret else num_mla, mcast_list', k'))"

text \<open>\<^verbatim>\<open>batadv_mcast_mla_is_duplicate\<close>.\<close>

fun batadv_mcast_mla_is_duplicate :: "mac \<Rightarrow> mac list \<Rightarrow> bool" where
  "batadv_mcast_mla_is_duplicate mcast_addr [] = False"
| "batadv_mcast_mla_is_duplicate mcast_addr (mcast_entry # next) =
     (if mcast_entry = mcast_addr then True
      else batadv_mcast_mla_is_duplicate mcast_addr next)"

text \<open>
  \<^verbatim>\<open>batadv_mcast_mla_bridge_collect\<close>. The loop is that of the local collector with
  the conversion and the duplicate test in place of the classifier; the loop at
  \<^verbatim>\<open>out:\<close> frees the fetched list on every path.
\<close>

fun bridge_collect_loop ::
  "config \<Rightarrow> int \<Rightarrow> br_ip list \<Rightarrow> mac list \<Rightarrow> int \<Rightarrow> int \<Rightarrow> kernel
    \<Rightarrow> mac list \<times> int \<times> int \<times> kernel" where
  "bridge_collect_loop cfg num_mla_max [] mcast_list num_mla ret k =
     (mcast_list, num_mla, ret, k)"
| "bridge_collect_loop cfg num_mla_max (br_ip_entry # next) mcast_list num_mla ret k =
     (if num_mla \<ge> num_mla_max then
        (mcast_list, num_mla, ret, pr_warn (Too_many_local_bridge num_mla_max) k)
      else
        (let mcast_addr = batadv_mcast_mla_br_addr_cpy cfg br_ip_entry in
         if batadv_mcast_mla_is_duplicate mcast_addr mcast_list then
           bridge_collect_loop cfg num_mla_max next mcast_list num_mla ret k
         else
           (case kmalloc k of
              (new, k') \<Rightarrow>
                if \<not> new then (mcast_list, num_mla, - ENOMEM, k')
                else bridge_collect_loop cfg num_mla_max next
                       (mcast_addr # mcast_list) (num_mla + 1) ret k')))"

fun br_ip_list_free :: "br_ip list \<Rightarrow> kernel \<Rightarrow> br_ip list \<times> kernel" where
  "br_ip_list_free [] k = ([], k)"
| "br_ip_list_free (br_ip_entry # tmp) k = br_ip_list_free tmp (kfree k)"

definition batadv_mcast_mla_bridge_collect ::
  "config \<Rightarrow> net_device \<Rightarrow> mac list \<Rightarrow> int \<Rightarrow> kernel \<Rightarrow> int \<times> mac list \<times> kernel" where
  "batadv_mcast_mla_bridge_collect cfg soft_if mcast_list num_mla_max k =
     (case br_multicast_list_adjacent soft_if of
        (ret0, bridge_mcast_list) \<Rightarrow>
          (case (if ret0 < 0 then (mcast_list, 0, ret0, k)
                 else bridge_collect_loop cfg num_mla_max bridge_mcast_list mcast_list 0 ret0 k) of
             (mcast_list', num_mla, ret, k') \<Rightarrow>
               (if ret < 0 then ret else num_mla, mcast_list',
                snd (br_ip_list_free bridge_mcast_list k'))))"

section \<open>The reconciler and the cycle\<close>

text \<open>
  \<^verbatim>\<open>batadv_mcast_mla_collect_free\<close> unlinks and frees every entry of the list.
\<close>

fun batadv_mcast_mla_collect_free :: "mac list \<Rightarrow> kernel \<Rightarrow> mac list \<times> kernel" where
  "batadv_mcast_mla_collect_free [] k = ([], k)"
| "batadv_mcast_mla_collect_free (mcast_entry # tmp) k =
     batadv_mcast_mla_collect_free tmp (kfree k)"

definition batadv_tt_local_remove :: "batadv_priv \<Rightarrow> mac \<Rightarrow> batadv_priv" where
  "batadv_tt_local_remove bat_priv addr = bat_priv\<lparr>tt := tt bat_priv @ [Tt_local_remove addr]\<rparr>"

definition batadv_tt_local_add :: "batadv_priv \<Rightarrow> mac \<Rightarrow> batadv_priv" where
  "batadv_tt_local_add bat_priv addr = bat_priv\<lparr>tt := tt bat_priv @ [Tt_local_add addr]\<rparr>"

text \<open>
  \<^verbatim>\<open>batadv_mcast_mla_tt_clean\<close> walks \<^verbatim>\<open>bat_priv->mcast.mla_list\<close> with the safe
  iterator. The loop's arguments are the entries already passed and kept (\<open>before\<close>)
  and the entries from the current one on; \<^verbatim>\<open>list_del\<close> drops the current entry, so the
  list is \<open>before @ next\<close> afterwards.
\<close>

fun tt_clean_loop ::
  "mac list \<Rightarrow> mac list \<Rightarrow> mac list \<Rightarrow> batadv_priv \<Rightarrow> kernel \<Rightarrow> batadv_priv \<times> kernel" where
  "tt_clean_loop mcast_list before [] bat_priv k = (bat_priv, k)"
| "tt_clean_loop mcast_list before (mcast_entry # next) bat_priv k =
     (if batadv_mcast_mla_is_duplicate mcast_entry mcast_list then
        tt_clean_loop mcast_list (before @ [mcast_entry]) next bat_priv k
      else
        tt_clean_loop mcast_list before next
          ((batadv_tt_local_remove bat_priv mcast_entry)\<lparr>mla_list := before @ next\<rparr>)
          (kfree k))"

definition batadv_mcast_mla_tt_clean ::
  "batadv_priv \<Rightarrow> mac list \<Rightarrow> kernel \<Rightarrow> batadv_priv \<times> kernel" where
  "batadv_mcast_mla_tt_clean bat_priv mcast_list k =
     tt_clean_loop mcast_list [] (mla_list bat_priv) bat_priv k"

text \<open>
  \<^verbatim>\<open>batadv_mcast_mla_tt_add\<close> walks the collected list with the safe iterator;
  \<^verbatim>\<open>list_move_tail\<close> takes the current entry out of it and appends it to
  \<^verbatim>\<open>mla_list\<close>. The result is the private data and what is left of the collected list.
\<close>

fun tt_add_loop ::
  "mac list \<Rightarrow> mac list \<Rightarrow> batadv_priv \<Rightarrow> batadv_priv \<times> mac list" where
  "tt_add_loop before [] bat_priv = (bat_priv, before)"
| "tt_add_loop before (mcast_entry # next) bat_priv =
     (if batadv_mcast_mla_is_duplicate mcast_entry (mla_list bat_priv) then
        tt_add_loop (before @ [mcast_entry]) next bat_priv
      else
        tt_add_loop before next
          ((batadv_tt_local_add bat_priv mcast_entry)
             \<lparr>mla_list := mla_list bat_priv @ [mcast_entry]\<rparr>))"

definition batadv_mcast_mla_tt_add :: "batadv_priv \<Rightarrow> mac list \<Rightarrow> batadv_priv \<times> mac list" where
  "batadv_mcast_mla_tt_add bat_priv mcast_list = tt_add_loop [] mcast_list bat_priv"

text \<open>
  \<^verbatim>\<open>batadv_mcast_mla_tt_update\<close>, with one function for the code at each label. The
  result is the private data, the local list \<^verbatim>\<open>mcast_list\<close> as the function leaves it,
  and the kernel. The identifier \<^verbatim>\<open>num_mla\<close> in the budget of the bridge collector is
  not declared in \<^verbatim>\<open>batadv_mcast_mla_tt_update\<close>, so its value is a parameter.
\<close>

definition tt_update_out ::
  "batadv_priv \<Rightarrow> mac list \<Rightarrow> kernel \<Rightarrow> batadv_priv \<times> mac list \<times> kernel" where
  "tt_update_out bat_priv mcast_list k =
     (case batadv_mcast_mla_collect_free mcast_list k of
        (mcast_list', k') \<Rightarrow> (bat_priv, mcast_list', k'))"

definition tt_update_update ::
  "batadv_priv \<Rightarrow> mac list \<Rightarrow> kernel \<Rightarrow> batadv_priv \<times> mac list \<times> kernel" where
  "tt_update_update bat_priv mcast_list k =
     (case batadv_mcast_mla_tt_clean bat_priv mcast_list k of
        (bat_priv1, k1) \<Rightarrow>
          (case batadv_mcast_mla_tt_add bat_priv1 mcast_list of
             (bat_priv2, mcast_list2) \<Rightarrow> tt_update_out bat_priv2 mcast_list2 k1))"

definition batadv_mcast_mla_tt_update ::
  "config \<Rightarrow> int \<Rightarrow> batadv_priv \<Rightarrow> kernel \<Rightarrow> batadv_priv \<times> mac list \<times> kernel" where
  "batadv_mcast_mla_tt_update cfg num_mla bat_priv k =
     (case primary_if bat_priv of
        None \<Rightarrow> tt_update_out bat_priv [] k
      | Some primary \<Rightarrow>
          if mcast_group_awareness bat_priv = 0 then tt_update_update bat_priv [] k
          else
            (case batadv_mcast_mla_local_collect (soft_iface primary) [] BATADV_MLA_MAX k of
               (ret, mcast_list, k1) \<Rightarrow>
                 if ret < 0 then tt_update_out bat_priv mcast_list k1
                 else if \<not> CONFIG_BATMAN_ADV_MCAST_BRIDGE_SNOOP cfg then
                   tt_update_update bat_priv mcast_list k1
                 else
                   (case batadv_mcast_mla_bridge_collect cfg (soft_iface primary) mcast_list
                           (BATADV_MLA_MAX - num_mla) k1 of
                      (ret2, mcast_list2, k2) \<Rightarrow>
                        if ret2 < 0 then tt_update_out bat_priv mcast_list2 k2
                        else tt_update_update bat_priv mcast_list2 k2)))"

text \<open>
  Vocabulary of the statements below, not part of the program: a list without its
  repeated entries, each kept where it first occurs.
\<close>

abbreviation first_seen :: "'a list \<Rightarrow> 'a list" where
  "first_seen xs \<equiv> rev (remdups (rev xs))"

section \<open>The reconciler computes the difference of the two lists\<close>

lemma is_duplicate_iff: "batadv_mcast_mla_is_duplicate a xs = (a \<in> set xs)"
  by (induction xs) auto

lemma tt_clean_loop_eq:
  "mla_list bp = before @ es \<Longrightarrow>
   tt_clean_loop cand before es bp k =
     (bp\<lparr>mla_list := before @ filter (\<lambda>a. a \<in> set cand) es,
         tt := tt bp @ map Tt_local_remove (filter (\<lambda>a. a \<notin> set cand) es)\<rparr>,
      k\<lparr>kfree_calls := kfree_calls k + length (filter (\<lambda>a. a \<notin> set cand) es)\<rparr>)"
  by (induction es arbitrary: before bp k)
     (simp_all add: is_duplicate_iff batadv_tt_local_remove_def kfree_def)

lemma tt_clean_eq:
  "batadv_mcast_mla_tt_clean bp cand k =
     (bp\<lparr>mla_list := filter (\<lambda>a. a \<in> set cand) (mla_list bp),
         tt := tt bp @ map Tt_local_remove (filter (\<lambda>a. a \<notin> set cand) (mla_list bp))\<rparr>,
      k\<lparr>kfree_calls := kfree_calls k + length (filter (\<lambda>a. a \<notin> set cand) (mla_list bp))\<rparr>)"
  by (simp add: batadv_mcast_mla_tt_clean_def tt_clean_loop_eq)

lemma remdups_snoc:
  "remdups (ys @ [x]) = filter (\<lambda>y. y \<noteq> x) (remdups ys) @ [x]"
  by (induction ys) auto

lemma first_seen_Cons:
  "first_seen (x # xs) = x # first_seen (filter (\<lambda>y. y \<noteq> x) xs)"
  by (simp add: remdups_snoc remdups_filter rev_filter)

lemma first_seen_step:
  assumes "x \<notin> set m"
  shows "first_seen (filter (\<lambda>a. a \<notin> set m) (x # xs)) =
         x # first_seen (filter (\<lambda>a. a \<notin> set (m @ [x])) xs)"
proof -
  have "filter (\<lambda>y. y \<noteq> x) (filter (\<lambda>a. a \<notin> set m) xs) = filter (\<lambda>a. a \<notin> set (m @ [x])) xs"
    by (induction xs) auto
  then show ?thesis
    using assms first_seen_Cons [of x "filter (\<lambda>a. a \<notin> set m) xs"] by simp
qed

lemma tt_add_loop_fst:
  "fst (tt_add_loop before es bp) =
     bp\<lparr>mla_list := mla_list bp @ first_seen (filter (\<lambda>a. a \<notin> set (mla_list bp)) es),
        tt := tt bp @ map Tt_local_add (first_seen (filter (\<lambda>a. a \<notin> set (mla_list bp)) es))\<rparr>"
proof (induction es arbitrary: before bp)
  case Nil
  show ?case by simp
next
  case (Cons e es)
  show ?case
  proof (cases "e \<in> set (mla_list bp)")
    case True
    then show ?thesis using Cons.IH [of "before @ [e]" bp]
      by (simp add: is_duplicate_iff)
  next
    case False
    let ?bp = "(batadv_tt_local_add bp e)\<lparr>mla_list := mla_list bp @ [e]\<rparr>"
    have m: "mla_list ?bp = mla_list bp @ [e]" and t: "tt ?bp = tt bp @ [Tt_local_add e]"
      by (simp_all add: batadv_tt_local_add_def)
    have "fst (tt_add_loop before (e # es) bp) = fst (tt_add_loop before es ?bp)"
      using False by (simp add: is_duplicate_iff)
    also have "\<dots> = ?bp\<lparr>mla_list := mla_list ?bp @ first_seen (filter (\<lambda>a. a \<notin> set (mla_list ?bp)) es),
        tt := tt ?bp @ map Tt_local_add (first_seen (filter (\<lambda>a. a \<notin> set (mla_list ?bp)) es))\<rparr>"
      by (rule Cons.IH)
    also have "\<dots> = bp\<lparr>mla_list := mla_list bp @ first_seen (filter (\<lambda>a. a \<notin> set (mla_list bp)) (e # es)),
        tt := tt bp @ map Tt_local_add (first_seen (filter (\<lambda>a. a \<notin> set (mla_list bp)) (e # es)))\<rparr>"
      unfolding m t first_seen_step [OF False]
      by (simp add: batadv_tt_local_add_def)
    finally show ?thesis .
  qed
qed

lemma tt_add_fst:
  "fst (batadv_mcast_mla_tt_add bp cand) =
     bp\<lparr>mla_list := mla_list bp @ first_seen (filter (\<lambda>a. a \<notin> set (mla_list bp)) cand),
        tt := tt bp @ map Tt_local_add (first_seen (filter (\<lambda>a. a \<notin> set (mla_list bp)) cand))\<rparr>"
  by (simp add: batadv_mcast_mla_tt_add_def tt_add_loop_fst)

lemma collect_free_eq:
  "batadv_mcast_mla_collect_free l k = ([], k\<lparr>kfree_calls := kfree_calls k + length l\<rparr>)"
  by (induction l arbitrary: k) (simp_all add: kfree_def)

lemma tt_update_out_eq:
  "tt_update_out bp l k = (bp, [], k\<lparr>kfree_calls := kfree_calls k + length l\<rparr>)"
  by (simp add: tt_update_out_def collect_free_eq)

lemma tt_update_update_fst:
  "fst (tt_update_update bp cand k) =
     bp\<lparr>mla_list := filter (\<lambda>a. a \<in> set cand) (mla_list bp) @
                     first_seen (filter (\<lambda>a. a \<notin> set (mla_list bp)) cand),
        tt := tt bp @ map Tt_local_remove (filter (\<lambda>a. a \<notin> set cand) (mla_list bp)) @
                     map Tt_local_add (first_seen (filter (\<lambda>a. a \<notin> set (mla_list bp)) cand))\<rparr>"
proof -
  obtain bp1 k1 where c: "batadv_mcast_mla_tt_clean bp cand k = (bp1, k1)"
    by (cases "batadv_mcast_mla_tt_clean bp cand k")
  obtain bp2 l2 where a: "batadv_mcast_mla_tt_add bp1 cand = (bp2, l2)"
    by (cases "batadv_mcast_mla_tt_add bp1 cand")
  have bp1: "bp1 = bp\<lparr>mla_list := filter (\<lambda>a. a \<in> set cand) (mla_list bp),
         tt := tt bp @ map Tt_local_remove (filter (\<lambda>a. a \<notin> set cand) (mla_list bp))\<rparr>"
    using c by (simp add: tt_clean_eq)
  have f: "filter (\<lambda>a. a \<notin> set (mla_list bp1)) cand = filter (\<lambda>a. a \<notin> set (mla_list bp)) cand"
    unfolding bp1 by (rule filter_cong) auto
  have "bp2 = fst (batadv_mcast_mla_tt_add bp1 cand)"
    using a by simp
  then have "bp2 = bp1\<lparr>mla_list := mla_list bp1 @ first_seen (filter (\<lambda>a. a \<notin> set (mla_list bp)) cand),
        tt := tt bp1 @ map Tt_local_add (first_seen (filter (\<lambda>a. a \<notin> set (mla_list bp)) cand))\<rparr>"
    by (simp only: tt_add_fst f)
  then show ?thesis
    using c a by (simp add: tt_update_update_def tt_update_out_eq bp1)
qed

lemma tt_update_update_snd:
  "fst (snd (tt_update_update bp cand k)) = []"
  by (simp add: tt_update_update_def tt_update_out_eq split: prod.splits)

text \<open>
  C2. One run of the code at the label \<^verbatim>\<open>update\<close> (\<^verbatim>\<open>batadv_mcast_mla_tt_clean\<close>, then
  \<^verbatim>\<open>batadv_mcast_mla_tt_add\<close>, then the cleanup at \<^verbatim>\<open>out\<close>) appends to the calls of the
  translation table first one removal for every announced entry that is not among the
  candidates, then one addition for every candidate address that was not announced;
  an address in both lists gets neither call. Afterwards the announced list holds
  exactly the candidate addresses, and the candidate list is empty.
\<close>

theorem reconcile_removes_before_adds:
  assumes "tt_update_update bat_priv candidate k = (bat_priv', mcast_list', k')"
    and "removed = filter (\<lambda>a. a \<notin> set candidate) (mla_list bat_priv)"
    and "added = first_seen (filter (\<lambda>a. a \<notin> set (mla_list bat_priv)) candidate)"
  shows "tt bat_priv' = tt bat_priv @ map Tt_local_remove removed @ map Tt_local_add added
    \<and> set removed = set (mla_list bat_priv) - set candidate
    \<and> (distinct (mla_list bat_priv) \<longrightarrow> distinct removed)
    \<and> set added = set candidate - set (mla_list bat_priv) \<and> distinct added
    \<and> mla_list bat_priv' = filter (\<lambda>a. a \<in> set candidate) (mla_list bat_priv) @ added
    \<and> set (mla_list bat_priv') = set candidate
    \<and> mcast_list' = []"
proof -
  have b: "bat_priv' = fst (tt_update_update bat_priv candidate k)"
    and l: "mcast_list' = fst (snd (tt_update_update bat_priv candidate k))"
    using assms(1) by simp_all
  have t: "tt bat_priv' = tt bat_priv @ map Tt_local_remove removed @ map Tt_local_add added"
    and m: "mla_list bat_priv' = filter (\<lambda>a. a \<in> set candidate) (mla_list bat_priv) @ added"
    unfolding b tt_update_update_fst assms(2,3) by simp_all
  have r: "set removed = set (mla_list bat_priv) - set candidate"
    unfolding assms(2) by auto
  have a: "set added = set candidate - set (mla_list bat_priv)" and d: "distinct added"
    unfolding assms(3) by auto
  have s: "set (mla_list bat_priv') = set candidate"
    unfolding m using a by auto
  have e: "mcast_list' = []"
    unfolding l by (rule tt_update_update_snd)
  show ?thesis
    using t r a d m s e by (simp add: assms(2))
qed

theorem reconcile_removes_before_adds_witness:
  "tt (fst (tt_update_update
        \<lparr>mla_list = [Mac 0x33 0x33 0 0 0 0xA, Mac 0x33 0x33 0 0 0 0xB], tt = [],
         mcast_group_awareness = 1, primary_if = None\<rparr>
        [Mac 0x33 0x33 0 0 0 0xB, Mac 0x33 0x33 0 0 0 0xC]
        \<lparr>kmalloc_fails = {}, kmalloc_calls = 0, kfree_calls = 0, printk = []\<rparr>))
     = [Tt_local_remove (Mac 0x33 0x33 0 0 0 0xA), Tt_local_add (Mac 0x33 0x33 0 0 0 0xC)]
   \<and> mla_list (fst (tt_update_update
        \<lparr>mla_list = [Mac 0x33 0x33 0 0 0 0xA, Mac 0x33 0x33 0 0 0 0xB], tt = [],
         mcast_group_awareness = 1, primary_if = None\<rparr>
        [Mac 0x33 0x33 0 0 0 0xB, Mac 0x33 0x33 0 0 0 0xC]
        \<lparr>kmalloc_fails = {}, kmalloc_calls = 0, kfree_calls = 0, printk = []\<rparr>))
     = [Mac 0x33 0x33 0 0 0 0xB, Mac 0x33 0x33 0 0 0 0xC]"
  (is "tt (fst (tt_update_update ?bp ?cand ?k)) = _ \<and> _")
proof -
  obtain b l k' where r: "tt_update_update ?bp ?cand ?k = (b, l, k')"
    using prod_cases3 by blast
  from reconcile_removes_before_adds [OF r refl refl]
  have "tt b = [Tt_local_remove (Mac 0x33 0x33 0 0 0 0xA), Tt_local_add (Mac 0x33 0x33 0 0 0 0xC)]"
    and "mla_list b = [Mac 0x33 0x33 0 0 0 0xB, Mac 0x33 0x33 0 0 0 0xC]"
    by simp_all
  then show ?thesis
    unfolding r by simp
qed

text \<open>
  C9. A second run of the reconciler with the same candidates, on the state the first
  run left, changes neither the announced list nor the calls issued to the translation
  table: the second run removes nothing and adds nothing.
\<close>

theorem reconcile_idempotent:
  assumes "tt_update_update bat_priv candidate k = (bat_priv1, l1, k1)"
    and "tt_update_update bat_priv1 candidate k1 = (bat_priv2, l2, k2)"
  shows "mla_list bat_priv2 = mla_list bat_priv1 \<and> tt bat_priv2 = tt bat_priv1"
proof -
  have 1: "bat_priv1 = fst (tt_update_update bat_priv candidate k)"
    and 2: "bat_priv2 = fst (tt_update_update bat_priv1 candidate k1)"
    using assms by simp_all
  have "mla_list bat_priv1 = filter (\<lambda>a. a \<in> set candidate) (mla_list bat_priv) @
          first_seen (filter (\<lambda>a. a \<notin> set (mla_list bat_priv)) candidate)"
    unfolding 1 tt_update_update_fst by simp
  then have s: "set (mla_list bat_priv1) = set candidate"
    by auto
  have kept: "filter (\<lambda>a. a \<in> set candidate) (mla_list bat_priv1) = mla_list bat_priv1"
    and none_removed: "filter (\<lambda>a. a \<notin> set candidate) (mla_list bat_priv1) = []"
    and none_added: "filter (\<lambda>a. a \<notin> set (mla_list bat_priv1)) candidate = []"
    using s by (simp_all add: filter_empty_conv filter_id_conv)
  show ?thesis
    unfolding 2 tt_update_update_fst kept none_removed none_added by simp
qed

theorem reconcile_idempotent_witness:
  "tt (fst (tt_update_update
        (fst (tt_update_update
          \<lparr>mla_list = [Mac 0x33 0x33 0 0 0 0xA, Mac 0x33 0x33 0 0 0 0xB], tt = [],
           mcast_group_awareness = 1, primary_if = None\<rparr>
          [Mac 0x33 0x33 0 0 0 0xB, Mac 0x33 0x33 0 0 0 0xC]
          \<lparr>kmalloc_fails = {}, kmalloc_calls = 0, kfree_calls = 0, printk = []\<rparr>))
        [Mac 0x33 0x33 0 0 0 0xB, Mac 0x33 0x33 0 0 0 0xC]
        (snd (snd (tt_update_update
          \<lparr>mla_list = [Mac 0x33 0x33 0 0 0 0xA, Mac 0x33 0x33 0 0 0 0xB], tt = [],
           mcast_group_awareness = 1, primary_if = None\<rparr>
          [Mac 0x33 0x33 0 0 0 0xB, Mac 0x33 0x33 0 0 0 0xC]
          \<lparr>kmalloc_fails = {}, kmalloc_calls = 0, kfree_calls = 0, printk = []\<rparr>)))))
     = [Tt_local_remove (Mac 0x33 0x33 0 0 0 0xA), Tt_local_add (Mac 0x33 0x33 0 0 0 0xC)]"
  (is "tt (fst (tt_update_update (fst (tt_update_update ?bp ?cand ?k)) _ _)) = _")
proof -
  obtain b1 l1 k1 where r1: "tt_update_update ?bp ?cand ?k = (b1, l1, k1)"
    using prod_cases3 by blast
  obtain b2 l2 k2 where r2: "tt_update_update b1 ?cand k1 = (b2, l2, k2)"
    using prod_cases3 by blast
  have "b1 = fst (tt_update_update ?bp ?cand ?k)"
    using r1 by simp
  then have "tt b1 = [Tt_local_remove (Mac 0x33 0x33 0 0 0 0xA), Tt_local_add (Mac 0x33 0x33 0 0 0 0xC)]"
    by (simp add: tt_update_update_fst)
  with reconcile_idempotent [OF r1 r2]
  have "tt b2 = [Tt_local_remove (Mac 0x33 0x33 0 0 0 0xA), Tt_local_add (Mac 0x33 0x33 0 0 0 0xC)]"
    by simp
  then show ?thesis
    unfolding r1 using r2 by simp
qed

section \<open>The classifier\<close>

lemma has_transient_ipv6_loop_iff:
  "has_transient_ipv6_loop addr l =
     (\<exists>g \<in> set l. ipv6_eth_mc_map g = addr \<and> IPV6_ADDR_MC_FLAG_TRANSIENT g)"
  by (induction l) auto

lemma has_non_ll_ipv4_loop_iff:
  "has_non_ll_ipv4_loop addr l =
     (\<exists>g \<in> set l. ip_eth_mc_map g = addr \<and> \<not> ipv4_is_local_multicast g)"
  by (induction l) auto

lemma mask_7_numeral: "(0x7F :: 'a::len word) = mask 7"
  and mask_8_numeral: "(0xFF :: 'a::len word) = mask 8"
  by (simp_all add: mask_eq_exp_minus_1)

lemma ip_eth_mc_map_bytes:
  "ip_eth_mc_map [a, b, c, d] = Mac 1 0 0x5e (b AND 0x7F) c d"
  apply (simp add: ip_eth_mc_map_def ntohl_def Let_def mask_7_numeral mask_8_numeral)
  apply (intro conjI)
    apply (rule bit_word_eqI; auto simp: bit_simps dest: bit_imp_le_length)+
  done

lemma ipv4_is_local_multicast_bytes:
  "ipv4_is_local_multicast [a, b, c, d] = (a = 224 \<and> b = 0 \<and> c = 0)"
proof -
  have e: "(0xffffff00 :: 32 word) = push_bit 8 (mask 24)"
    by (simp add: mask_eq_exp_minus_1)
  let ?X = "push_bit 24 (ucast a) OR push_bit 16 (ucast b) OR push_bit 8 (ucast c) :: 32 word"
  have l: "ntohl [a, b, c, d] AND 0xffffff00 = ?X"
    unfolding e
    by (rule bit_word_eqI) (auto simp: ntohl_def bit_simps dest: bit_imp_le_length)
  have A: "ucast (drop_bit 24 ?X) = a"
    by (rule bit_word_eqI) (auto simp: bit_simps dest: bit_imp_le_length)
  have B: "ucast (drop_bit 16 ?X) = b"
    by (rule bit_word_eqI) (auto simp: bit_simps dest: bit_imp_le_length)
  have C: "ucast (drop_bit 8 ?X) = c"
    by (rule bit_word_eqI) (auto simp: bit_simps dest: bit_imp_le_length)
  show ?thesis
    unfolding ipv4_is_local_multicast_def l
  proof
    assume x: "?X = 0xe0000000"
    show "a = 224 \<and> b = 0 \<and> c = 0"
      using A B C unfolding x by simp
  next
    assume "a = 224 \<and> b = 0 \<and> c = 0"
    then show "?X = 0xe0000000" by simp
  qed
qed

text \<open>
  C3. For every six-byte address and every device: an address that starts with
  \<^verbatim>\<open>33:33\<close> is accepted iff the device has joined an IPv6 group whose derived MAC is the
  address and whose address has the transient flag; an address that starts with
  \<^verbatim>\<open>01:00:5E\<close> is accepted iff the device has joined an IPv4 group whose derived MAC is
  the address and which is not link-local; every other address is rejected.
\<close>

theorem has_unspecial_addr_iff:
  "(a0 = 0x33 \<and> a1 = 0x33 \<longrightarrow>
      batadv_mcast_mla_has_unspecial_addr (Mac a0 a1 a2 a3 a4 a5) dev =
        (\<exists>joined g. ip6_ptr dev = Some joined \<and> g \<in> set joined \<and>
           ipv6_eth_mc_map g = Mac a0 a1 a2 a3 a4 a5 \<and> IPV6_ADDR_MC_FLAG_TRANSIENT g))
   \<and> (a0 = 0x01 \<and> a1 = 0x00 \<and> a2 = 0x5E \<longrightarrow>
      batadv_mcast_mla_has_unspecial_addr (Mac a0 a1 a2 a3 a4 a5) dev =
        (\<exists>joined g. ip_ptr dev = Some joined \<and> g \<in> set joined \<and>
           ip_eth_mc_map g = Mac a0 a1 a2 a3 a4 a5 \<and> \<not> ipv4_is_local_multicast g))
   \<and> (\<not> (a0 = 0x33 \<and> a1 = 0x33) \<and> \<not> (a0 = 0x01 \<and> a1 = 0x00 \<and> a2 = 0x5E) \<longrightarrow>
      \<not> batadv_mcast_mla_has_unspecial_addr (Mac a0 a1 a2 a3 a4 a5) dev)"
  by (auto simp: batadv_mcast_mla_has_transient_ipv6_def batadv_mcast_mla_has_non_ll_ipv4_def
        has_transient_ipv6_loop_iff has_non_ll_ipv4_loop_iff split: option.splits)

theorem has_unspecial_addr_iff_witness:
  "batadv_mcast_mla_has_unspecial_addr (Mac 0x01 0x00 0x5E 1 2 3)
     (Net_device None []
        (Some [[0xff, 0x02, 0, 0, 0, 0, 0, 0, 0, 0, 0, 0, 0, 0, 0, 1],
               [0xff, 0x15, 0, 0, 0, 0, 0, 0, 0, 0, 0, 0, 0, 0, 0, 7]])
        (Some [[224, 0, 0, 251], [224, 1, 2, 3]]) (0, []))
   \<and> \<not> batadv_mcast_mla_has_unspecial_addr (Mac 0x01 0x00 0x5E 0 0 251)
     (Net_device None []
        (Some [[0xff, 0x02, 0, 0, 0, 0, 0, 0, 0, 0, 0, 0, 0, 0, 0, 1],
               [0xff, 0x15, 0, 0, 0, 0, 0, 0, 0, 0, 0, 0, 0, 0, 0, 7]])
        (Some [[224, 0, 0, 251], [224, 1, 2, 3]]) (0, []))
   \<and> batadv_mcast_mla_has_unspecial_addr (Mac 0x33 0x33 0 0 0 7)
     (Net_device None []
        (Some [[0xff, 0x02, 0, 0, 0, 0, 0, 0, 0, 0, 0, 0, 0, 0, 0, 1],
               [0xff, 0x15, 0, 0, 0, 0, 0, 0, 0, 0, 0, 0, 0, 0, 0, 7]])
        (Some [[224, 0, 0, 251], [224, 1, 2, 3]]) (0, []))
   \<and> \<not> batadv_mcast_mla_has_unspecial_addr (Mac 0x33 0x33 0 0 0 1)
     (Net_device None []
        (Some [[0xff, 0x02, 0, 0, 0, 0, 0, 0, 0, 0, 0, 0, 0, 0, 0, 1],
               [0xff, 0x15, 0, 0, 0, 0, 0, 0, 0, 0, 0, 0, 0, 0, 0, 7]])
        (Some [[224, 0, 0, 251], [224, 1, 2, 3]]) (0, []))
   \<and> \<not> batadv_mcast_mla_has_unspecial_addr (Mac 0xff 0xff 0xff 0xff 0xff 0xff)
     (Net_device None []
        (Some [[0xff, 0x02, 0, 0, 0, 0, 0, 0, 0, 0, 0, 0, 0, 0, 0, 1],
               [0xff, 0x15, 0, 0, 0, 0, 0, 0, 0, 0, 0, 0, 0, 0, 0, 7]])
        (Some [[224, 0, 0, 251], [224, 1, 2, 3]]) (0, []))"
  (is "batadv_mcast_mla_has_unspecial_addr _ ?dev \<and> _")
proof -
  have "batadv_mcast_mla_has_unspecial_addr (Mac 0x01 0x00 0x5E 1 2 3) ?dev"
    using has_unspecial_addr_iff [of 1 0 94 1 2 3 ?dev]
    by (simp add: ip_eth_mc_map_bytes ipv4_is_local_multicast_bytes conj_disj_distribR ex_disj_distrib)
  moreover have "\<not> batadv_mcast_mla_has_unspecial_addr (Mac 0x01 0x00 0x5E 0 0 251) ?dev"
    using has_unspecial_addr_iff [of 1 0 94 0 0 251 ?dev]
    by (simp add: ip_eth_mc_map_bytes ipv4_is_local_multicast_bytes conj_disj_distribR ex_disj_distrib)
  moreover have "batadv_mcast_mla_has_unspecial_addr (Mac 0x33 0x33 0 0 0 7) ?dev"
    using has_unspecial_addr_iff [of 51 51 0 0 0 7 ?dev]
    by (simp add: ipv6_eth_mc_map_def IPV6_ADDR_MC_FLAG_TRANSIENT_def conj_disj_distribR ex_disj_distrib)
  moreover have "\<not> batadv_mcast_mla_has_unspecial_addr (Mac 0x33 0x33 0 0 0 1) ?dev"
    using has_unspecial_addr_iff [of 51 51 0 0 0 1 ?dev]
    by (simp add: ipv6_eth_mc_map_def IPV6_ADDR_MC_FLAG_TRANSIENT_def conj_disj_distribR ex_disj_distrib)
  moreover have "\<not> batadv_mcast_mla_has_unspecial_addr (Mac 0xff 0xff 0xff 0xff 0xff 0xff) ?dev"
    using has_unspecial_addr_iff [of 255 255 255 255 255 255 ?dev]
    by simp
  ultimately show ?thesis by blast
qed

section \<open>The local collector\<close>

lemma local_collect_loop_shape:
  "local_collect_loop dev mx es l n r k = (l', n', r', k') \<Longrightarrow>
     \<exists>ys zs. filter (\<lambda>e. batadv_mcast_mla_has_unspecial_addr e dev) es = ys @ zs \<and>
       l' = rev ys @ l \<and> n' = n + int (length ys) \<and> (r' = r \<or> r' = - ENOMEM) \<and>
       kfree_calls k' = kfree_calls k"
proof (induction es arbitrary: l n k)
  case Nil
  then show ?case by simp
next
  case (Cons e es)
  show ?case
  proof (cases "n \<ge> mx")
    case True
    with Cons.prems show ?thesis by (auto simp: pr_warn_def)
  next
    case over: False
    show ?thesis
    proof (cases "batadv_mcast_mla_has_unspecial_addr e dev")
      case False
      with over Cons.prems have "local_collect_loop dev mx es l n r k = (l', n', r', k')"
        by simp
      from Cons.IH [OF this] False show ?thesis by simp
    next
      case True
      show ?thesis
      proof (cases "kmalloc_calls k \<notin> kmalloc_fails k")
        case False
        with over True Cons.prems show ?thesis
          by (auto simp: kmalloc_def)
      next
        case ok: True
        let ?k = "k\<lparr>kmalloc_calls := Suc (kmalloc_calls k)\<rparr>"
        from over True ok Cons.prems
        have "local_collect_loop dev mx es (e # l) (n + 1) r ?k = (l', n', r', k')"
          by (simp add: kmalloc_def)
        from Cons.IH [OF this] obtain ys zs where
          "filter (\<lambda>e. batadv_mcast_mla_has_unspecial_addr e dev) es = ys @ zs"
          "l' = rev ys @ e # l" "n' = n + 1 + int (length ys)" "r' = r \<or> r' = - ENOMEM"
          "kfree_calls k' = kfree_calls k"
          by auto
        with True show ?thesis
          by (intro exI [of _ "e # ys"] exI [of _ zs]) simp
      qed
    qed
  qed
qed


lemma local_collect_shape:
  assumes "batadv_mcast_mla_local_collect dev0 l mx k = (ret, l', k')"
    and "dev = (case master dev0 of Some m \<Rightarrow> m | None \<Rightarrow> dev0)"
  shows "\<exists>ys zs. filter (\<lambda>e. batadv_mcast_mla_has_unspecial_addr e dev) (mc dev) = ys @ zs \<and>
       l' = rev ys @ l \<and> (ret = int (length ys) \<or> ret = - ENOMEM) \<and>
       kfree_calls k' = kfree_calls k"
proof -
  obtain n' r' where
    loop: "local_collect_loop dev mx (mc dev) l 0 0 k = (l', n', r', k')"
    and ret: "ret = (if r' < 0 then r' else n')"
    using assms by (auto simp: batadv_mcast_mla_local_collect_def Let_def split: prod.splits)
  from local_collect_loop_shape [OF loop] obtain ys zs where
    "filter (\<lambda>e. batadv_mcast_mla_has_unspecial_addr e dev) (mc dev) = ys @ zs"
    "l' = rev ys @ l" "n' = int (length ys)" "r' = 0 \<or> r' = - ENOMEM"
    "kfree_calls k' = kfree_calls k"
    by auto
  with ret show ?thesis
    by (intro exI [of _ ys] exI [of _ zs]) (auto simp: ENOMEM_def)
qed


section \<open>The bridge collector\<close>

lemma bridge_collect_loop_shape:
  "bridge_collect_loop cfg mx es l n r k = (l', n', r', k') \<Longrightarrow>
     \<exists>ys. l' = rev ys @ l \<and> n' = n + int (length ys) \<and>
       set ys \<subseteq> batadv_mcast_mla_br_addr_cpy cfg ` set es \<and>
       distinct ys \<and> set ys \<inter> set l = {} \<and> (r' = r \<or> r' = - ENOMEM) \<and>
       kfree_calls k' = kfree_calls k"
proof (induction es arbitrary: l n k)
  case Nil
  then show ?case by simp
next
  case (Cons e es)
  let ?a = "batadv_mcast_mla_br_addr_cpy cfg e"
  show ?case
  proof (cases "n \<ge> mx")
    case True
    with Cons.prems show ?thesis by (auto simp: pr_warn_def)
  next
    case over: False
    show ?thesis
    proof (cases "?a \<in> set l")
      case True
      with over Cons.prems have "bridge_collect_loop cfg mx es l n r k = (l', n', r', k')"
        by (simp add: is_duplicate_iff)
      from Cons.IH [OF this] show ?thesis by auto
    next
      case fresh: False
      show ?thesis
      proof (cases "kmalloc_calls k \<notin> kmalloc_fails k")
        case False
        with over fresh Cons.prems show ?thesis
          by (auto simp: kmalloc_def is_duplicate_iff)
      next
        case ok: True
        let ?k = "k\<lparr>kmalloc_calls := Suc (kmalloc_calls k)\<rparr>"
        from over fresh ok Cons.prems
        have "bridge_collect_loop cfg mx es (?a # l) (n + 1) r ?k = (l', n', r', k')"
          by (simp add: kmalloc_def is_duplicate_iff)
        from Cons.IH [OF this] obtain ys where
          "l' = rev ys @ ?a # l" "n' = n + 1 + int (length ys)"
          "set ys \<subseteq> batadv_mcast_mla_br_addr_cpy cfg ` set es"
          "distinct ys" "set ys \<inter> set (?a # l) = {}" "r' = r \<or> r' = - ENOMEM"
          "kfree_calls k' = kfree_calls k"
          by auto
        with fresh show ?thesis
          by (intro exI [of _ "?a # ys"]) auto
      qed
    qed
  qed
qed

lemma bridge_collect_loop_cap:
  "bridge_collect_loop cfg mx es l n r k = (l', n', r', k') \<Longrightarrow> n' \<le> max n mx"
proof (induction es arbitrary: l n k)
  case Nil
  then show ?case by simp
next
  case (Cons e es)
  show ?case
  proof (cases "n \<ge> mx")
    case True
    with Cons.prems show ?thesis by auto
  next
    case False
    with Cons.prems have
      "bridge_collect_loop cfg mx es l n r k = (l', n', r', k') \<or> n' = n \<or>
       bridge_collect_loop cfg mx es (batadv_mcast_mla_br_addr_cpy cfg e # l) (n + 1) r
         (k\<lparr>kmalloc_calls := Suc (kmalloc_calls k)\<rparr>) = (l', n', r', k')"
      by (auto simp: kmalloc_def Let_def split: if_splits)
    with False Cons.IH [of l n k]
      Cons.IH [of "batadv_mcast_mla_br_addr_cpy cfg e # l" "n + 1"
        "k\<lparr>kmalloc_calls := Suc (kmalloc_calls k)\<rparr>"]
    show ?thesis by auto
  qed
qed

lemma br_ip_list_free_eq:
  "br_ip_list_free l k = ([], k\<lparr>kfree_calls := kfree_calls k + length l\<rparr>)"
  by (induction l arbitrary: k) (simp_all add: kfree_def)

lemma bridge_collect_shape:
  assumes "batadv_mcast_mla_bridge_collect cfg soft l mx k = (ret, l', k')"
  shows "\<exists>ys. l' = rev ys @ l \<and> distinct ys \<and> set ys \<inter> set l = {} \<and>
      set ys \<subseteq> batadv_mcast_mla_br_addr_cpy cfg ` set (snd (br_adjacent soft)) \<and>
      int (length ys) \<le> max 0 mx \<and>
      (if 0 \<le> ret then ret = int (length ys)
       else ret = - ENOMEM \<or> (ret = fst (br_adjacent soft) \<and> ys = [])) \<and>
      kfree_calls k' = kfree_calls k + length (snd (br_adjacent soft))"
proof (cases "fst (br_adjacent soft) < 0")
  case True
  with assms show ?thesis
    by (auto simp: batadv_mcast_mla_bridge_collect_def br_multicast_list_adjacent_def br_ip_list_free_eq split: prod.splits)
next
  case False
  obtain l1 n1 r1 k1 where
    loop: "bridge_collect_loop cfg mx (snd (br_adjacent soft)) l 0 (fst (br_adjacent soft)) k = (l1, n1, r1, k1)"
    using prod_cases4 by blast
  from False loop assms have res: "ret = (if r1 < 0 then r1 else n1)" "l' = l1"
    "k' = k1\<lparr>kfree_calls := kfree_calls k1 + length (snd (br_adjacent soft))\<rparr>"
    by (auto simp: batadv_mcast_mla_bridge_collect_def br_multicast_list_adjacent_def br_ip_list_free_eq split: prod.splits)
  from bridge_collect_loop_shape [OF loop] obtain ys where ys:
    "l1 = rev ys @ l" "n1 = int (length ys)"
    "set ys \<subseteq> batadv_mcast_mla_br_addr_cpy cfg ` set (snd (br_adjacent soft))"
    "distinct ys" "set ys \<inter> set l = {}" "r1 = fst (br_adjacent soft) \<or> r1 = - ENOMEM"
    "kfree_calls k1 = kfree_calls k"
    by auto
  from bridge_collect_loop_cap [OF loop] ys(2) have "int (length ys) \<le> max 0 mx"
    by simp
  with res ys False show ?thesis
    by (intro exI [of _ ys]) (auto simp: ENOMEM_def)
qed

section \<open>The cycle\<close>

text \<open>
  C1. When a primary interface is selected and the optimisation is on, the cycle calls
  the local collector and, if that succeeds and bridge snooping is compiled in, the
  bridge collector. If either call returns \<^verbatim>\<open>-ENOMEM\<close>, the cycle jumps to \<^verbatim>\<open>out\<close>
  without running the reconciler: the announced list and the calls issued to the
  translation table are what they were before the cycle.
\<close>

theorem collector_failure_aborts_cycle:
  assumes "primary_if bat_priv = Some primary"
    and "mcast_group_awareness bat_priv \<noteq> 0"
    and "batadv_mcast_mla_local_collect (soft_iface primary) [] BATADV_MLA_MAX k =
           (ret, mcast_list, k1)"
    and "ret = - ENOMEM \<or>
         (CONFIG_BATMAN_ADV_MCAST_BRIDGE_SNOOP cfg \<and>
          fst (batadv_mcast_mla_bridge_collect cfg (soft_iface primary) mcast_list
                 (BATADV_MLA_MAX - num_mla) k1) = - ENOMEM)"
  shows "mla_list (fst (batadv_mcast_mla_tt_update cfg num_mla bat_priv k)) = mla_list bat_priv
       \<and> tt (fst (batadv_mcast_mla_tt_update cfg num_mla bat_priv k)) = tt bat_priv"
proof (cases "ret < 0")
  case True
  with assms(1-3) show ?thesis
    by (simp add: batadv_mcast_mla_tt_update_def tt_update_out_eq)
next
  case False
  with assms(4) have
    snoop: "CONFIG_BATMAN_ADV_MCAST_BRIDGE_SNOOP cfg"
    and fail: "fst (batadv_mcast_mla_bridge_collect cfg (soft_iface primary) mcast_list
                 (BATADV_MLA_MAX - num_mla) k1) < 0"
    by (auto simp: ENOMEM_def)
  obtain ret2 mcast_list2 k2 where
    bridge: "batadv_mcast_mla_bridge_collect cfg (soft_iface primary) mcast_list
               (BATADV_MLA_MAX - num_mla) k1 = (ret2, mcast_list2, k2)"
    using prod_cases3 by blast
  with fail have "ret2 < 0" by simp
  with False snoop bridge assms(1-3) show ?thesis
    by (simp add: batadv_mcast_mla_tt_update_def tt_update_out_eq)
qed

theorem collector_failure_aborts_cycle_witness:
  "mla_list (fst (batadv_mcast_mla_tt_update
       \<lparr>CONFIG_BATMAN_ADV_MCAST_BRIDGE_SNOOP = True, CONFIG_IPV6 = True\<rparr>
       0
       \<lparr>mla_list = [Mac 0x33 0x33 0 0 0 7], tt = [Tt_local_add (Mac 0x33 0x33 0 0 0 7)],
        mcast_group_awareness = 1,
        primary_if = Some \<lparr>soft_iface =
          Net_device None [Mac 0x01 0x00 0x5E 1 2 3] None (Some [[224, 1, 2, 3]])
            (1, [\<lparr>u = [239, 1, 1, 1, 0, 0, 0, 0, 0, 0, 0, 0, 0, 0, 0, 0], proto = [8, 0]\<rparr>])\<rparr>\<rparr>
       \<lparr>kmalloc_fails = UNIV, kmalloc_calls = 0, kfree_calls = 0, printk = []\<rparr>))
     = [Mac 0x33 0x33 0 0 0 7]
   \<and> tt (fst (batadv_mcast_mla_tt_update
       \<lparr>CONFIG_BATMAN_ADV_MCAST_BRIDGE_SNOOP = True, CONFIG_IPV6 = True\<rparr>
       0
       \<lparr>mla_list = [Mac 0x33 0x33 0 0 0 7], tt = [Tt_local_add (Mac 0x33 0x33 0 0 0 7)],
        mcast_group_awareness = 1,
        primary_if = Some \<lparr>soft_iface =
          Net_device None [Mac 0x01 0x00 0x5E 1 2 3] None (Some [[224, 1, 2, 3]])
            (1, [\<lparr>u = [239, 1, 1, 1, 0, 0, 0, 0, 0, 0, 0, 0, 0, 0, 0, 0], proto = [8, 0]\<rparr>])\<rparr>\<rparr>
       \<lparr>kmalloc_fails = {1..}, kmalloc_calls = 0, kfree_calls = 0, printk = []\<rparr>))
     = [Tt_local_add (Mac 0x33 0x33 0 0 0 7)]"
  (is "mla_list (fst (batadv_mcast_mla_tt_update ?cfg 0 ?bp ?k0)) = _ \<and>
       tt (fst (batadv_mcast_mla_tt_update _ _ _ ?k1)) = _")
proof -
  let ?soft = "Net_device None [Mac 0x01 0x00 0x5E 1 2 3] None (Some [[224, 1, 2, 3]])
      (1, [\<lparr>u = [239, 1, 1, 1, 0, 0, 0, 0, 0, 0, 0, 0, 0, 0, 0, 0], proto = [8, 0]\<rparr>])"
  have unspecial: "batadv_mcast_mla_has_unspecial_addr (Mac 0x01 0x00 0x5E 1 2 3) ?soft"
    by (simp add: batadv_mcast_mla_has_non_ll_ipv4_def ip_eth_mc_map_bytes
          ipv4_is_local_multicast_bytes)
  have local0: "batadv_mcast_mla_local_collect ?soft [] BATADV_MLA_MAX ?k0 =
      (- ENOMEM, [], ?k0\<lparr>kmalloc_calls := 1\<rparr>)"
    by (simp add: batadv_mcast_mla_local_collect_def unspecial kmalloc_def
          BATADV_MLA_MAX_def UINT8_MAX_def ENOMEM_def del: batadv_mcast_mla_has_unspecial_addr.simps)
  have local1: "batadv_mcast_mla_local_collect ?soft [] BATADV_MLA_MAX ?k1 =
      (1, [Mac 0x01 0x00 0x5E 1 2 3], ?k1\<lparr>kmalloc_calls := 1\<rparr>)"
    by (simp add: batadv_mcast_mla_local_collect_def unspecial kmalloc_def
          BATADV_MLA_MAX_def UINT8_MAX_def ENOMEM_def del: batadv_mcast_mla_has_unspecial_addr.simps)
  have bridge1: "fst (batadv_mcast_mla_bridge_collect ?cfg ?soft [Mac 0x01 0x00 0x5E 1 2 3]
      (BATADV_MLA_MAX - 0) (?k1\<lparr>kmalloc_calls := 1\<rparr>)) = - ENOMEM"
    by (simp add: batadv_mcast_mla_bridge_collect_def br_multicast_list_adjacent_def batadv_mcast_mla_br_addr_cpy_def
          htons_def ETH_P_IP_def kmalloc_def BATADV_MLA_MAX_def UINT8_MAX_def ENOMEM_def)
  have "mla_list (fst (batadv_mcast_mla_tt_update ?cfg 0 ?bp ?k0)) = [Mac 0x33 0x33 0 0 0 7]"
    using collector_failure_aborts_cycle [of ?bp "\<lparr>soft_iface = ?soft\<rparr>" ?k0, OF _ _ _ disjI1, of _ _ _ ?cfg 0] local0
    by simp
  moreover
  have "tt (fst (batadv_mcast_mla_tt_update ?cfg 0 ?bp ?k1)) = [Tt_local_add (Mac 0x33 0x33 0 0 0 7)]"
    using collector_failure_aborts_cycle [of ?bp "\<lparr>soft_iface = ?soft\<rparr>" ?k1 1 "[Mac 0x01 0x00 0x5E 1 2 3]" "?k1\<lparr>kmalloc_calls := 1\<rparr>" ?cfg 0] local1 bridge1
    by simp
  ultimately show ?thesis by simp
qed

text \<open>
  C5. With a primary interface selected and \<^verbatim>\<open>mcast_group_awareness\<close> zero, the cycle
  runs the reconciler on the empty candidate list: every announced entry is removed from
  the translation table, in order, and the announced list is left empty. With no primary
  interface the cycle changes neither the announced list nor the translation table.
\<close>

theorem disabled_clears_no_primary_aborts:
  "(primary_if bat_priv = Some primary \<and> mcast_group_awareness bat_priv = 0 \<longrightarrow>
      batadv_mcast_mla_tt_update cfg num_mla bat_priv k = tt_update_update bat_priv [] k \<and>
      mla_list (fst (batadv_mcast_mla_tt_update cfg num_mla bat_priv k)) = [] \<and>
      tt (fst (batadv_mcast_mla_tt_update cfg num_mla bat_priv k)) =
        tt bat_priv @ map Tt_local_remove (mla_list bat_priv))
   \<and> (primary_if bat_priv = None \<longrightarrow>
      mla_list (fst (batadv_mcast_mla_tt_update cfg num_mla bat_priv k)) = mla_list bat_priv \<and>
      tt (fst (batadv_mcast_mla_tt_update cfg num_mla bat_priv k)) = tt bat_priv)"
proof (intro conjI impI)
  assume a: "primary_if bat_priv = Some primary \<and> mcast_group_awareness bat_priv = 0"
  then show u: "batadv_mcast_mla_tt_update cfg num_mla bat_priv k =
      tt_update_update bat_priv [] k"
    by (simp add: batadv_mcast_mla_tt_update_def)
  show "mla_list (fst (batadv_mcast_mla_tt_update cfg num_mla bat_priv k)) = []"
    unfolding u tt_update_update_fst by simp
  show "tt (fst (batadv_mcast_mla_tt_update cfg num_mla bat_priv k)) =
      tt bat_priv @ map Tt_local_remove (mla_list bat_priv)"
    unfolding u tt_update_update_fst by simp
next
  assume "primary_if bat_priv = None"
  then have "batadv_mcast_mla_tt_update cfg num_mla bat_priv k = (bat_priv, [], k)"
    by (simp add: batadv_mcast_mla_tt_update_def tt_update_out_eq)
  then show "mla_list (fst (batadv_mcast_mla_tt_update cfg num_mla bat_priv k)) =
      mla_list bat_priv"
    and "tt (fst (batadv_mcast_mla_tt_update cfg num_mla bat_priv k)) = tt bat_priv"
    by simp_all
qed

theorem disabled_clears_no_primary_aborts_witness:
  "tt (fst (batadv_mcast_mla_tt_update
       \<lparr>CONFIG_BATMAN_ADV_MCAST_BRIDGE_SNOOP = True, CONFIG_IPV6 = True\<rparr>
       0
       \<lparr>mla_list = [Mac 0x33 0x33 0 0 0 7, Mac 0x01 0x00 0x5E 1 2 3], tt = [],
        mcast_group_awareness = 0,
        primary_if = Some \<lparr>soft_iface =
          Net_device None [Mac 0x01 0x00 0x5E 1 2 3] None (Some [[224, 1, 2, 3]]) (0, [])\<rparr>\<rparr>
       \<lparr>kmalloc_fails = {}, kmalloc_calls = 0, kfree_calls = 0, printk = []\<rparr>))
     = [Tt_local_remove (Mac 0x33 0x33 0 0 0 7), Tt_local_remove (Mac 0x01 0x00 0x5E 1 2 3)]
   \<and> mla_list (fst (batadv_mcast_mla_tt_update
       \<lparr>CONFIG_BATMAN_ADV_MCAST_BRIDGE_SNOOP = True, CONFIG_IPV6 = True\<rparr>
       0
       \<lparr>mla_list = [Mac 0x33 0x33 0 0 0 7, Mac 0x01 0x00 0x5E 1 2 3], tt = [],
        mcast_group_awareness = 0,
        primary_if = Some \<lparr>soft_iface =
          Net_device None [Mac 0x01 0x00 0x5E 1 2 3] None (Some [[224, 1, 2, 3]]) (0, [])\<rparr>\<rparr>
       \<lparr>kmalloc_fails = {}, kmalloc_calls = 0, kfree_calls = 0, printk = []\<rparr>))
     = []
   \<and> tt (fst (batadv_mcast_mla_tt_update
       \<lparr>CONFIG_BATMAN_ADV_MCAST_BRIDGE_SNOOP = True, CONFIG_IPV6 = True\<rparr>
       0
       \<lparr>mla_list = [Mac 0x33 0x33 0 0 0 7, Mac 0x01 0x00 0x5E 1 2 3], tt = [],
        mcast_group_awareness = 1, primary_if = None\<rparr>
       \<lparr>kmalloc_fails = {}, kmalloc_calls = 0, kfree_calls = 0, printk = []\<rparr>))
     = []
   \<and> mla_list (fst (batadv_mcast_mla_tt_update
       \<lparr>CONFIG_BATMAN_ADV_MCAST_BRIDGE_SNOOP = True, CONFIG_IPV6 = True\<rparr>
       0
       \<lparr>mla_list = [Mac 0x33 0x33 0 0 0 7, Mac 0x01 0x00 0x5E 1 2 3], tt = [],
        mcast_group_awareness = 1, primary_if = None\<rparr>
       \<lparr>kmalloc_fails = {}, kmalloc_calls = 0, kfree_calls = 0, printk = []\<rparr>))
     = [Mac 0x33 0x33 0 0 0 7, Mac 0x01 0x00 0x5E 1 2 3]"
  (is "tt (fst (batadv_mcast_mla_tt_update ?cfg 0 ?disabled ?k)) = _ \<and> _ \<and>
       tt (fst (batadv_mcast_mla_tt_update _ _ ?detached _)) = _ \<and> _")
proof -
  let ?p = "\<lparr>soft_iface = Net_device None [Mac 0x01 0x00 0x5E 1 2 3] None (Some [[224, 1, 2, 3]]) (0, [])\<rparr>"
  have d: "primary_if ?disabled = Some ?p \<and> mcast_group_awareness ?disabled = 0"
    and n: "primary_if ?detached = None"
    by simp_all
  from disabled_clears_no_primary_aborts [of ?disabled ?p ?cfg 0 ?k] d
  have "tt (fst (batadv_mcast_mla_tt_update ?cfg 0 ?disabled ?k)) =
          tt ?disabled @ map Tt_local_remove (mla_list ?disabled)"
    and "mla_list (fst (batadv_mcast_mla_tt_update ?cfg 0 ?disabled ?k)) = []"
    by blast+
  moreover
  from disabled_clears_no_primary_aborts [of ?detached ?p ?cfg 0 ?k] n
  have "tt (fst (batadv_mcast_mla_tt_update ?cfg 0 ?detached ?k)) = tt ?detached"
    and "mla_list (fst (batadv_mcast_mla_tt_update ?cfg 0 ?detached ?k)) = mla_list ?detached"
    by blast+
  ultimately show ?thesis
    by simp
qed

section \<open>What a failed collector leaves behind\<close>

lemma local_collect_loop_fail:
  assumes "local_collect_loop dev mx es l n r k = (l', n', r', k')" and "r' \<noteq> r"
  shows "\<exists>m. m < length (filter (\<lambda>e. batadv_mcast_mla_has_unspecial_addr e dev) es) \<and>
      l' = rev (take m (filter (\<lambda>e. batadv_mcast_mla_has_unspecial_addr e dev) es)) @ l \<and>
      n' = n + int m \<and> n' < mx \<and> r' = - ENOMEM \<and>
      k' = k\<lparr>kmalloc_calls := kmalloc_calls k + m + 1\<rparr> \<and>
      kmalloc_calls k + m \<in> kmalloc_fails k \<and>
      (\<forall>i<m. kmalloc_calls k + i \<notin> kmalloc_fails k)"
  using assms
proof (induction es arbitrary: l n k)
  case Nil
  then show ?case by simp
next
  case (Cons e es)
  let ?P = "\<lambda>e. batadv_mcast_mla_has_unspecial_addr e dev"
  have over: "\<not> n \<ge> mx"
    using Cons.prems by (auto split: if_splits)
  show ?case
  proof (cases "?P e")
    case False
    with over Cons.prems have "local_collect_loop dev mx es l n r k = (l', n', r', k')"
      by simp
    from Cons.IH [OF this Cons.prems(2)] False show ?thesis by simp
  next
    case True
    show ?thesis
    proof (cases "kmalloc_calls k \<notin> kmalloc_fails k")
      case False
      with over True Cons.prems show ?thesis
        by (intro exI [of _ 0]) (auto simp: kmalloc_def)
    next
      case ok: True
      let ?k = "k\<lparr>kmalloc_calls := Suc (kmalloc_calls k)\<rparr>"
      from over True ok Cons.prems
      have "local_collect_loop dev mx es (e # l) (n + 1) r ?k = (l', n', r', k')"
        by (simp add: kmalloc_def)
      from Cons.IH [OF this Cons.prems(2)] obtain m where m:
        "m < length (filter ?P es)" "l' = rev (take m (filter ?P es)) @ e # l"
        "n' = n + 1 + int m" "n' < mx" "r' = - ENOMEM"
        "k' = ?k\<lparr>kmalloc_calls := kmalloc_calls ?k + m + 1\<rparr>"
        "kmalloc_calls ?k + m \<in> kmalloc_fails ?k"
        "\<forall>i<m. kmalloc_calls ?k + i \<notin> kmalloc_fails ?k"
        by blast
      have "\<forall>i<Suc m. kmalloc_calls k + i \<notin> kmalloc_fails k"
      proof (intro allI impI)
        fix i assume "i < Suc m"
        then show "kmalloc_calls k + i \<notin> kmalloc_fails k"
          using ok m(8) by (cases i) auto
      qed
      with m True show ?thesis
        by (intro exI [of _ "Suc m"]) (simp del: batadv_mcast_mla_has_unspecial_addr.simps)
    qed
  qed
qed

lemma local_collect_fail:
  assumes "batadv_mcast_mla_local_collect dev0 l mx k = (ret, l', k')" and "ret < 0"
    and "dev = (case master dev0 of Some m \<Rightarrow> m | None \<Rightarrow> dev0)"
  shows "\<exists>m. m < length (filter (\<lambda>e. batadv_mcast_mla_has_unspecial_addr e dev) (mc dev)) \<and>
      l' = rev (take m (filter (\<lambda>e. batadv_mcast_mla_has_unspecial_addr e dev) (mc dev))) @ l \<and>
      int m < mx \<and> ret = - ENOMEM \<and>
      k' = k\<lparr>kmalloc_calls := kmalloc_calls k + m + 1\<rparr> \<and>
      kmalloc_calls k + m \<in> kmalloc_fails k \<and>
      (\<forall>i<m. kmalloc_calls k + i \<notin> kmalloc_fails k)"
proof -
  obtain n' r' where
    loop: "local_collect_loop dev mx (mc dev) l 0 0 k = (l', n', r', k')"
    and ret: "ret = (if r' < 0 then r' else n')"
    using assms by (auto simp: batadv_mcast_mla_local_collect_def Let_def split: prod.splits)
  from local_collect_loop_shape [OF loop] have "0 \<le> n'"
    by auto
  with ret assms(2) have "r' \<noteq> 0" and r: "ret = r'"
    by (auto split: if_splits)
  from local_collect_loop_fail [OF loop this(1)] r show ?thesis
    by auto
qed

text \<open>
  C6 (as the code has it). When an allocation fails in the local collector, the call
  returns \<^verbatim>\<open>-ENOMEM\<close> and frees nothing. The failing allocation is the first one the
  kernel refuses; every allocation of the call before it succeeded, and the entries they
  stored, the first announceable entries of the device's list, as many as there were
  successful allocations, are in front of what the caller's list held before. The cycle
  then jumps to \<^verbatim>\<open>out\<close>, where \<^verbatim>\<open>batadv_mcast_mla_collect_free\<close> frees every entry of that
  list, and the reconciler does not run. The counterexample is a call that fails at its
  second allocation and returns with the first entry still in the list.
\<close>

theorem local_collect_failure_keeps_entries:
  assumes "batadv_mcast_mla_local_collect dev0 mcast_list num_mla_max k = (ret, mcast_list', k')"
    and "ret < 0"
    and "dev = (case master dev0 of Some m \<Rightarrow> m | None \<Rightarrow> dev0)"
    and "announceable = filter (\<lambda>e. batadv_mcast_mla_has_unspecial_addr e dev) (mc dev)"
    and "stored = kmalloc_calls k' - Suc (kmalloc_calls k)"
  shows "ret = - ENOMEM
    \<and> kmalloc_calls k < kmalloc_calls k'
    \<and> kmalloc_calls k' - 1 \<in> kmalloc_fails k
    \<and> (\<forall>i. kmalloc_calls k \<le> i \<and> i < kmalloc_calls k' - 1 \<longrightarrow> i \<notin> kmalloc_fails k)
    \<and> stored < length announceable
    \<and> mcast_list' = rev (take stored announceable) @ mcast_list
    \<and> length mcast_list' = length mcast_list + stored
    \<and> kfree_calls k' = kfree_calls k
    \<and> (primary_if bat_priv = Some primary \<and> mcast_group_awareness bat_priv \<noteq> 0 \<and>
        soft_iface primary = dev0 \<and> mcast_list = [] \<and> num_mla_max = BATADV_MLA_MAX \<longrightarrow>
        batadv_mcast_mla_tt_update cfg num_mla bat_priv k =
          (bat_priv, [], k'\<lparr>kfree_calls := kfree_calls k' + length mcast_list'\<rparr>))"
proof -
  from local_collect_fail [OF assms(1-3)] obtain m where m:
    "m < length announceable" "mcast_list' = rev (take m announceable) @ mcast_list"
    "ret = - ENOMEM" "k' = k\<lparr>kmalloc_calls := kmalloc_calls k + m + 1\<rparr>"
    "kmalloc_calls k + m \<in> kmalloc_fails k"
    "\<forall>i<m. kmalloc_calls k + i \<notin> kmalloc_fails k"
    unfolding assms(4) by blast
  have s: "stored = m"
    unfolding assms(5) m(4) by simp
  have c: "kmalloc_calls k < kmalloc_calls k'" and f: "kmalloc_calls k' - 1 \<in> kmalloc_fails k"
    and fr: "kfree_calls k' = kfree_calls k"
    using m(5) unfolding m(4) by simp_all
  have before: "\<forall>i. kmalloc_calls k \<le> i \<and> i < kmalloc_calls k' - 1 \<longrightarrow> i \<notin> kmalloc_fails k"
  proof (intro allI impI)
    fix i assume "kmalloc_calls k \<le> i \<and> i < kmalloc_calls k' - 1"
    then have "i - kmalloc_calls k < m" "i = kmalloc_calls k + (i - kmalloc_calls k)"
      unfolding m(4) by auto
    with m(6) show "i \<notin> kmalloc_fails k"
      by metis
  qed
  have len: "length mcast_list' = length mcast_list + stored"
    unfolding m(2) s using m(1) by simp
  have cyc: "batadv_mcast_mla_tt_update cfg num_mla bat_priv k =
          (bat_priv, [], k'\<lparr>kfree_calls := kfree_calls k' + length mcast_list'\<rparr>)"
    if "primary_if bat_priv = Some primary" "mcast_group_awareness bat_priv \<noteq> 0"
      "soft_iface primary = dev0" "mcast_list = []" "num_mla_max = BATADV_MLA_MAX"
    using that assms(1,2) by (simp add: batadv_mcast_mla_tt_update_def tt_update_out_eq)
  from m(1,2,3) s c f fr before len cyc show ?thesis
    by blast
qed

theorem local_collect_failure_keeps_entries_witness:
  "batadv_mcast_mla_tt_update \<lparr>CONFIG_BATMAN_ADV_MCAST_BRIDGE_SNOOP = False, CONFIG_IPV6 = True\<rparr> 0
     \<lparr>mla_list = [Mac 0x33 0x33 0 0 0 7], tt = [], mcast_group_awareness = 1,
      primary_if = Some \<lparr>soft_iface =
        Net_device None [Mac 0x01 0x00 0x5E 1 2 3, Mac 0x01 0x00 0x5E 1 2 4] None
          (Some [[224, 1, 2, 3], [224, 1, 2, 4]]) (0, [])\<rparr>\<rparr>
     \<lparr>kmalloc_fails = {1}, kmalloc_calls = 0, kfree_calls = 0, printk = []\<rparr>
   = (\<lparr>mla_list = [Mac 0x33 0x33 0 0 0 7], tt = [], mcast_group_awareness = 1,
      primary_if = Some \<lparr>soft_iface =
        Net_device None [Mac 0x01 0x00 0x5E 1 2 3, Mac 0x01 0x00 0x5E 1 2 4] None
          (Some [[224, 1, 2, 3], [224, 1, 2, 4]]) (0, [])\<rparr>\<rparr>,
      [],
      \<lparr>kmalloc_fails = {1}, kmalloc_calls = 2, kfree_calls = 1, printk = []\<rparr>)
   \<and> length (fst (snd (batadv_mcast_mla_local_collect
        (Net_device None [Mac 0x01 0x00 0x5E 1 2 3, Mac 0x01 0x00 0x5E 1 2 4] None
          (Some [[224, 1, 2, 3], [224, 1, 2, 4]]) (0, []))
        [] BATADV_MLA_MAX
        \<lparr>kmalloc_fails = {1}, kmalloc_calls = 0, kfree_calls = 0, printk = []\<rparr>))) = 1"
  (is "batadv_mcast_mla_tt_update ?cfg 0 ?bp ?k = _ \<and> _")
proof -
  let ?soft = "Net_device None [Mac 0x01 0x00 0x5E 1 2 3, Mac 0x01 0x00 0x5E 1 2 4] None
          (Some [[224, 1, 2, 3], [224, 1, 2, 4]]) (0, [])"
  have l: "batadv_mcast_mla_local_collect ?soft [] BATADV_MLA_MAX ?k =
      (- ENOMEM, [Mac 0x01 0x00 0x5E 1 2 3], ?k\<lparr>kmalloc_calls := 2\<rparr>)"
    by (simp add: batadv_mcast_mla_local_collect_def batadv_mcast_mla_has_non_ll_ipv4_def
          ip_eth_mc_map_bytes ipv4_is_local_multicast_bytes kmalloc_def
          BATADV_MLA_MAX_def UINT8_MAX_def ENOMEM_def)
  have n: "- ENOMEM < 0" by (simp add: ENOMEM_def)
  note t = local_collect_failure_keeps_entries [OF l n refl refl refl,
      of ?bp "\<lparr>soft_iface = ?soft\<rparr>" ?cfg 0]
  from t have "batadv_mcast_mla_tt_update ?cfg 0 ?bp ?k =
      (?bp, [], (?k\<lparr>kmalloc_calls := 2\<rparr>)\<lparr>kfree_calls :=
         kfree_calls (?k\<lparr>kmalloc_calls := 2\<rparr>) + length [Mac 0x01 0x00 0x5E 1 2 3]\<rparr>)"
    by simp
  moreover from t have "length [Mac 0x01 0x00 0x5E 1 2 3] =
      length ([] :: mac list) + (kmalloc_calls (?k\<lparr>kmalloc_calls := 2\<rparr>) - Suc (kmalloc_calls ?k))"
    by blast
  ultimately show ?thesis
    unfolding l by simp
qed

theorem local_collect_failure_counterexample:
  "batadv_mcast_mla_local_collect
     (Net_device None [Mac 0x01 0x00 0x5E 1 2 3, Mac 0x01 0x00 0x5E 1 2 4] None
        (Some [[224, 1, 2, 3], [224, 1, 2, 4]]) (0, []))
     [] 255
     \<lparr>kmalloc_fails = {1}, kmalloc_calls = 0, kfree_calls = 0, printk = []\<rparr>
   = (- ENOMEM, [Mac 0x01 0x00 0x5E 1 2 3],
      \<lparr>kmalloc_fails = {1}, kmalloc_calls = 2, kfree_calls = 0, printk = []\<rparr>)"
  by (simp add: batadv_mcast_mla_local_collect_def batadv_mcast_mla_has_non_ll_ipv4_def
        ip_eth_mc_map_bytes ipv4_is_local_multicast_bytes kmalloc_def ENOMEM_def)

lemma bridge_collect_loop_fail:
  assumes "bridge_collect_loop cfg mx es l n r k = (l', n', r', k')" and "r' \<noteq> r"
  shows "\<exists>m. m < length (first_seen (filter (\<lambda>a. a \<notin> set l)
                        (map (batadv_mcast_mla_br_addr_cpy cfg) es))) \<and>
      l' = rev (take m (first_seen (filter (\<lambda>a. a \<notin> set l)
                        (map (batadv_mcast_mla_br_addr_cpy cfg) es)))) @ l \<and>
      n' = n + int m \<and> n' < mx \<and> r' = - ENOMEM \<and>
      k' = k\<lparr>kmalloc_calls := kmalloc_calls k + m + 1\<rparr> \<and>
      kmalloc_calls k + m \<in> kmalloc_fails k \<and>
      (\<forall>i<m. kmalloc_calls k + i \<notin> kmalloc_fails k)"
  using assms
proof (induction es arbitrary: l n k)
  case Nil
  then show ?case by simp
next
  case (Cons e es)
  let ?a = "batadv_mcast_mla_br_addr_cpy cfg e"
  let ?F = "\<lambda>l. first_seen (filter (\<lambda>a. a \<notin> set l) (map (batadv_mcast_mla_br_addr_cpy cfg) es))"
  have over: "\<not> n \<ge> mx"
    using Cons.prems by (auto split: if_splits)
  show ?case
  proof (cases "?a \<in> set l")
    case True
    with over Cons.prems have "bridge_collect_loop cfg mx es l n r k = (l', n', r', k')"
      by (simp add: is_duplicate_iff)
    from Cons.IH [OF this Cons.prems(2)] True show ?thesis by simp
  next
    case fresh: False
    have step: "first_seen (filter (\<lambda>a. a \<notin> set l)
        (map (batadv_mcast_mla_br_addr_cpy cfg) (e # es))) = ?a # ?F (?a # l)"
    proof -
      have "set (l @ [?a]) = set (?a # l)" by simp
      with first_seen_step [OF fresh, of "map (batadv_mcast_mla_br_addr_cpy cfg) es"]
      show ?thesis by (simp only: list.map)
    qed
    show ?thesis
    proof (cases "kmalloc_calls k \<notin> kmalloc_fails k")
      case False
      with over fresh Cons.prems have
        "l' = l" "n' = n" "r' = - ENOMEM" "k' = k\<lparr>kmalloc_calls := kmalloc_calls k + 0 + 1\<rparr>"
        "kmalloc_calls k + 0 \<in> kmalloc_fails k"
        by (auto simp: kmalloc_def is_duplicate_iff)
      with over show ?thesis
        unfolding step by (intro exI [of _ 0]) simp
    next
      case ok: True
      let ?k = "k\<lparr>kmalloc_calls := Suc (kmalloc_calls k)\<rparr>"
      from over fresh ok Cons.prems
      have "bridge_collect_loop cfg mx es (?a # l) (n + 1) r ?k = (l', n', r', k')"
        by (simp add: kmalloc_def is_duplicate_iff)
      from Cons.IH [OF this Cons.prems(2)] obtain m where m:
        "m < length (?F (?a # l))" "l' = rev (take m (?F (?a # l))) @ ?a # l"
        "n' = n + 1 + int m" "n' < mx" "r' = - ENOMEM"
        "k' = ?k\<lparr>kmalloc_calls := kmalloc_calls ?k + m + 1\<rparr>"
        "kmalloc_calls ?k + m \<in> kmalloc_fails ?k"
        "\<forall>i<m. kmalloc_calls ?k + i \<notin> kmalloc_fails ?k"
        by blast
      have "\<forall>i<Suc m. kmalloc_calls k + i \<notin> kmalloc_fails k"
      proof (intro allI impI)
        fix i assume "i < Suc m"
        then show "kmalloc_calls k + i \<notin> kmalloc_fails k"
          using ok m(8) by (cases i) auto
      qed
      with m show ?thesis
        unfolding step by (intro exI [of _ "Suc m"]) simp
    qed
  qed
qed

lemma bridge_collect_fail:
  assumes "batadv_mcast_mla_bridge_collect cfg soft l mx k = (ret, l', k')" and "ret < 0"
    and "0 \<le> fst (br_adjacent soft)"
  shows "\<exists>m. m < length (first_seen (filter (\<lambda>a. a \<notin> set l)
                        (map (batadv_mcast_mla_br_addr_cpy cfg) (snd (br_adjacent soft))))) \<and>
      l' = rev (take m (first_seen (filter (\<lambda>a. a \<notin> set l)
                        (map (batadv_mcast_mla_br_addr_cpy cfg) (snd (br_adjacent soft)))))) @ l \<and>
      int m < mx \<and> ret = - ENOMEM \<and>
      k' = k\<lparr>kmalloc_calls := kmalloc_calls k + m + 1,
             kfree_calls := kfree_calls k + length (snd (br_adjacent soft))\<rparr> \<and>
      kmalloc_calls k + m \<in> kmalloc_fails k \<and>
      (\<forall>i<m. kmalloc_calls k + i \<notin> kmalloc_fails k)"
proof -
  obtain l1 n1 r1 k1 where
    loop: "bridge_collect_loop cfg mx (snd (br_adjacent soft)) l 0 (fst (br_adjacent soft)) k =
             (l1, n1, r1, k1)"
    using prod_cases4 by blast
  from loop assms(1,3) have res: "ret = (if r1 < 0 then r1 else n1)" "l' = l1"
    "k' = k1\<lparr>kfree_calls := kfree_calls k1 + length (snd (br_adjacent soft))\<rparr>"
    by (auto simp: batadv_mcast_mla_bridge_collect_def br_multicast_list_adjacent_def
          br_ip_list_free_eq split: prod.splits)
  from bridge_collect_loop_shape [OF loop] have "0 \<le> n1"
    by auto
  with res(1) assms(2,3) have "r1 \<noteq> fst (br_adjacent soft)" and r: "ret = r1"
    by (auto split: if_splits)
  from bridge_collect_loop_fail [OF loop this(1)] r res(2,3) show ?thesis
    by auto
qed

text \<open>
  C7 (as the code has it). When an allocation fails in the bridge collector, the call
  frees the fetched list, one \<^verbatim>\<open>kfree\<close> for each fetched entry, and nothing else. If the
  fetch itself failed, the caller's list is untouched. Otherwise the failing allocation
  is the first one the kernel refuses, and the entries stored by the allocations before
  it stay in front of the caller's list: the first converted addresses that were not in
  the list yet, as many as there were successful allocations. The cycle then frees the
  whole list at \<^verbatim>\<open>out\<close> and the reconciler does not run. The counterexample is a call
  that adds one entry, fails at the next allocation, and returns with the added entry
  in the list.
\<close>

theorem bridge_collect_failure_keeps_entries:
  assumes "batadv_mcast_mla_bridge_collect cfg soft mcast_list num_mla_max k =
             (ret, mcast_list', k')"
    and "ret = - ENOMEM"
    and "fresh = first_seen (filter (\<lambda>a. a \<notin> set mcast_list)
                   (map (batadv_mcast_mla_br_addr_cpy cfg) (snd (br_adjacent soft))))"
    and "stored = kmalloc_calls k' - Suc (kmalloc_calls k)"
  shows "kfree_calls k' = kfree_calls k + length (snd (br_adjacent soft))
    \<and> (fst (br_adjacent soft) < 0 \<longrightarrow>
          mcast_list' = mcast_list \<and> kmalloc_calls k' = kmalloc_calls k)
    \<and> (0 \<le> fst (br_adjacent soft) \<longrightarrow>
          kmalloc_calls k < kmalloc_calls k' \<and>
          kmalloc_calls k' - 1 \<in> kmalloc_fails k \<and>
          (\<forall>i. kmalloc_calls k \<le> i \<and> i < kmalloc_calls k' - 1 \<longrightarrow> i \<notin> kmalloc_fails k) \<and>
          stored < length fresh \<and>
          mcast_list' = rev (take stored fresh) @ mcast_list \<and>
          length mcast_list' = length mcast_list + stored)
    \<and> (primary_if bat_priv = Some primary \<and> mcast_group_awareness bat_priv \<noteq> 0 \<and>
        CONFIG_BATMAN_ADV_MCAST_BRIDGE_SNOOP cfg \<and> soft_iface primary = soft \<and>
        batadv_mcast_mla_local_collect soft [] BATADV_MLA_MAX k0 = (ret0, mcast_list, k) \<and>
        0 \<le> ret0 \<and> num_mla_max = BATADV_MLA_MAX - num_mla \<longrightarrow>
        batadv_mcast_mla_tt_update cfg num_mla bat_priv k0 =
          (bat_priv, [], k'\<lparr>kfree_calls := kfree_calls k' + length mcast_list'\<rparr>))"
proof -
  have neg: "ret < 0"
    using assms(2) by (simp add: ENOMEM_def)
  from bridge_collect_shape [OF assms(1)]
  have fr: "kfree_calls k' = kfree_calls k + length (snd (br_adjacent soft))"
    by blast
  have early: "mcast_list' = mcast_list \<and> kmalloc_calls k' = kmalloc_calls k"
    if "fst (br_adjacent soft) < 0"
    using that assms(1)
    by (auto simp: batadv_mcast_mla_bridge_collect_def br_multicast_list_adjacent_def
          br_ip_list_free_eq split: prod.splits)
  have late: "kmalloc_calls k < kmalloc_calls k' \<and>
          kmalloc_calls k' - 1 \<in> kmalloc_fails k \<and>
          (\<forall>i. kmalloc_calls k \<le> i \<and> i < kmalloc_calls k' - 1 \<longrightarrow> i \<notin> kmalloc_fails k) \<and>
          stored < length fresh \<and>
          mcast_list' = rev (take stored fresh) @ mcast_list \<and>
          length mcast_list' = length mcast_list + stored"
    if fetched: "0 \<le> fst (br_adjacent soft)"
  proof -
    from bridge_collect_fail [OF assms(1) neg fetched] obtain m where m:
      "m < length fresh" "mcast_list' = rev (take m fresh) @ mcast_list"
      "k' = k\<lparr>kmalloc_calls := kmalloc_calls k + m + 1,
             kfree_calls := kfree_calls k + length (snd (br_adjacent soft))\<rparr>"
      "kmalloc_calls k + m \<in> kmalloc_fails k"
      "\<forall>i<m. kmalloc_calls k + i \<notin> kmalloc_fails k"
      unfolding assms(3) by blast
    have s: "stored = m"
      unfolding assms(4) m(3) by simp
    have c: "kmalloc_calls k < kmalloc_calls k'" and f: "kmalloc_calls k' - 1 \<in> kmalloc_fails k"
      using m(4) unfolding m(3) by simp_all
    have before: "\<forall>i. kmalloc_calls k \<le> i \<and> i < kmalloc_calls k' - 1 \<longrightarrow> i \<notin> kmalloc_fails k"
    proof (intro allI impI)
      fix i assume "kmalloc_calls k \<le> i \<and> i < kmalloc_calls k' - 1"
      then have "i - kmalloc_calls k < m" "i = kmalloc_calls k + (i - kmalloc_calls k)"
        unfolding m(3) by auto
      with m(5) show "i \<notin> kmalloc_fails k"
        by metis
    qed
    have len: "length mcast_list' = length mcast_list + stored"
      unfolding m(2) s using m(1) by simp
    from m(1,2) s c f before len show ?thesis
      by blast
  qed
  have cyc: "batadv_mcast_mla_tt_update cfg num_mla bat_priv k0 =
          (bat_priv, [], k'\<lparr>kfree_calls := kfree_calls k' + length mcast_list'\<rparr>)"
    if "primary_if bat_priv = Some primary" "mcast_group_awareness bat_priv \<noteq> 0"
      "CONFIG_BATMAN_ADV_MCAST_BRIDGE_SNOOP cfg" "soft_iface primary = soft"
      "batadv_mcast_mla_local_collect soft [] BATADV_MLA_MAX k0 = (ret0, mcast_list, k)"
      "0 \<le> ret0" "num_mla_max = BATADV_MLA_MAX - num_mla"
    using that assms(1) neg by (simp add: batadv_mcast_mla_tt_update_def tt_update_out_eq)
  from fr early late cyc show ?thesis
    by blast
qed

theorem bridge_collect_failure_keeps_entries_witness:
  "batadv_mcast_mla_tt_update \<lparr>CONFIG_BATMAN_ADV_MCAST_BRIDGE_SNOOP = True, CONFIG_IPV6 = True\<rparr> 1
     \<lparr>mla_list = [Mac 0x33 0x33 0 0 0 7], tt = [], mcast_group_awareness = 1,
      primary_if = Some \<lparr>soft_iface =
        Net_device None [Mac 0x01 0x00 0x5E 1 2 3] None (Some [[224, 1, 2, 3]])
          (2, [\<lparr>u = [239, 1, 1, 1, 0, 0, 0, 0, 0, 0, 0, 0, 0, 0, 0, 0], proto = [8, 0]\<rparr>,
               \<lparr>u = [239, 1, 1, 2, 0, 0, 0, 0, 0, 0, 0, 0, 0, 0, 0, 0], proto = [8, 0]\<rparr>])\<rparr>\<rparr>
     \<lparr>kmalloc_fails = {2}, kmalloc_calls = 0, kfree_calls = 0, printk = []\<rparr>
   = (\<lparr>mla_list = [Mac 0x33 0x33 0 0 0 7], tt = [], mcast_group_awareness = 1,
      primary_if = Some \<lparr>soft_iface =
        Net_device None [Mac 0x01 0x00 0x5E 1 2 3] None (Some [[224, 1, 2, 3]])
          (2, [\<lparr>u = [239, 1, 1, 1, 0, 0, 0, 0, 0, 0, 0, 0, 0, 0, 0, 0], proto = [8, 0]\<rparr>,
               \<lparr>u = [239, 1, 1, 2, 0, 0, 0, 0, 0, 0, 0, 0, 0, 0, 0, 0], proto = [8, 0]\<rparr>])\<rparr>\<rparr>,
      [],
      \<lparr>kmalloc_fails = {2}, kmalloc_calls = 3, kfree_calls = 4, printk = []\<rparr>)
   \<and> fst (snd (batadv_mcast_mla_bridge_collect
        \<lparr>CONFIG_BATMAN_ADV_MCAST_BRIDGE_SNOOP = True, CONFIG_IPV6 = True\<rparr>
        (Net_device None [Mac 0x01 0x00 0x5E 1 2 3] None (Some [[224, 1, 2, 3]])
          (2, [\<lparr>u = [239, 1, 1, 1, 0, 0, 0, 0, 0, 0, 0, 0, 0, 0, 0, 0], proto = [8, 0]\<rparr>,
               \<lparr>u = [239, 1, 1, 2, 0, 0, 0, 0, 0, 0, 0, 0, 0, 0, 0, 0], proto = [8, 0]\<rparr>]))
        [Mac 0x01 0x00 0x5E 1 2 3] 254
        \<lparr>kmalloc_fails = {2}, kmalloc_calls = 1, kfree_calls = 0, printk = []\<rparr>))
     = [Mac 0x01 0x00 0x5E 1 1 1, Mac 0x01 0x00 0x5E 1 2 3]"
  (is "batadv_mcast_mla_tt_update ?cfg 1 ?bp ?k = _ \<and> _")
proof -
  let ?soft = "Net_device None [Mac 0x01 0x00 0x5E 1 2 3] None (Some [[224, 1, 2, 3]])
          (2, [\<lparr>u = [239, 1, 1, 1, 0, 0, 0, 0, 0, 0, 0, 0, 0, 0, 0, 0], proto = [8, 0]\<rparr>,
               \<lparr>u = [239, 1, 1, 2, 0, 0, 0, 0, 0, 0, 0, 0, 0, 0, 0, 0], proto = [8, 0]\<rparr>])"
  let ?k1 = "\<lparr>kmalloc_fails = {2}, kmalloc_calls = 1, kfree_calls = 0, printk = []\<rparr>"
  let ?k2 = "\<lparr>kmalloc_fails = {2}, kmalloc_calls = 3, kfree_calls = 2, printk = []\<rparr>"
  have l: "batadv_mcast_mla_local_collect ?soft [] BATADV_MLA_MAX ?k =
      (1, [Mac 0x01 0x00 0x5E 1 2 3], ?k1)"
    by (simp add: batadv_mcast_mla_local_collect_def batadv_mcast_mla_has_non_ll_ipv4_def
          ip_eth_mc_map_bytes ipv4_is_local_multicast_bytes kmalloc_def
          BATADV_MLA_MAX_def UINT8_MAX_def ENOMEM_def)
  obtain l' where b: "batadv_mcast_mla_bridge_collect ?cfg ?soft [Mac 0x01 0x00 0x5E 1 2 3]
      (BATADV_MLA_MAX - 1) ?k1 = (- ENOMEM, l', ?k2)"
    by (simp add: batadv_mcast_mla_bridge_collect_def br_multicast_list_adjacent_def
          batadv_mcast_mla_br_addr_cpy_def htons_def ETH_P_IP_def kmalloc_def kfree_def
          BATADV_MLA_MAX_def UINT8_MAX_def ENOMEM_def)
  note t = bridge_collect_failure_keeps_entries [OF b refl refl refl,
      of ?bp "\<lparr>soft_iface = ?soft\<rparr>" ?k 1 1]
  have fetched: "0 \<le> fst (br_adjacent ?soft)"
    by simp
  with t have "l' = rev (take (kmalloc_calls ?k2 - Suc (kmalloc_calls ?k1))
      (first_seen (filter (\<lambda>a. a \<notin> set [Mac 0x01 0x00 0x5E 1 2 3])
         (map (batadv_mcast_mla_br_addr_cpy ?cfg) (snd (br_adjacent ?soft)))))) @
      [Mac 0x01 0x00 0x5E 1 2 3]"
    by blast
  then have l': "l' = [Mac 0x01 0x00 0x5E 1 1 1, Mac 0x01 0x00 0x5E 1 2 3]"
    by (simp add: batadv_mcast_mla_br_addr_cpy_def htons_def ETH_P_IP_def)
  from t l have "batadv_mcast_mla_tt_update ?cfg 1 ?bp ?k =
      (?bp, [], ?k2\<lparr>kfree_calls := kfree_calls ?k2 + length l'\<rparr>)"
    by simp
  with l' b show ?thesis
    by (simp add: BATADV_MLA_MAX_def UINT8_MAX_def)
qed

theorem bridge_collect_failure_counterexample:
  "batadv_mcast_mla_bridge_collect \<lparr>CONFIG_BATMAN_ADV_MCAST_BRIDGE_SNOOP = True, CONFIG_IPV6 = True\<rparr>
     (Net_device None [Mac 0x01 0x00 0x5E 1 2 3] None (Some [[224, 1, 2, 3]])
        (2, [\<lparr>u = [239, 1, 1, 1, 0, 0, 0, 0, 0, 0, 0, 0, 0, 0, 0, 0], proto = [8, 0]\<rparr>,
             \<lparr>u = [239, 1, 1, 2, 0, 0, 0, 0, 0, 0, 0, 0, 0, 0, 0, 0], proto = [8, 0]\<rparr>]))
     [Mac 0x01 0x00 0x5E 1 2 3] 254
     \<lparr>kmalloc_fails = {2}, kmalloc_calls = 1, kfree_calls = 0, printk = []\<rparr>
   = (- ENOMEM, [Mac 0x01 0x00 0x5E 1 1 1, Mac 0x01 0x00 0x5E 1 2 3],
      \<lparr>kmalloc_fails = {2}, kmalloc_calls = 3, kfree_calls = 2, printk = []\<rparr>)"
  by (simp add: batadv_mcast_mla_bridge_collect_def br_multicast_list_adjacent_def
        batadv_mcast_mla_br_addr_cpy_def htons_def ETH_P_IP_def kmalloc_def kfree_def ENOMEM_def)

section \<open>Entries of an unknown protocol family\<close>

lemma bridge_collect_loop_complete:
  "bridge_collect_loop cfg mx es l n r k = (l', n', r', k') \<Longrightarrow> 0 \<le> r \<Longrightarrow> 0 \<le> r' \<Longrightarrow>
     n' < mx \<Longrightarrow> batadv_mcast_mla_br_addr_cpy cfg ` set es \<union> set l \<subseteq> set l'"
proof (induction es arbitrary: l n k)
  case Nil
  then show ?case by simp
next
  case (Cons e es)
  let ?a = "batadv_mcast_mla_br_addr_cpy cfg e"
  have over: "\<not> n \<ge> mx"
    using Cons.prems by (auto split: if_splits)
  show ?case
  proof (cases "?a \<in> set l")
    case True
    with over Cons.prems have "bridge_collect_loop cfg mx es l n r k = (l', n', r', k')"
      by (simp add: is_duplicate_iff)
    from Cons.IH [OF this Cons.prems(2-4)] True show ?thesis by auto
  next
    case fresh: False
    have ok: "kmalloc_calls k \<notin> kmalloc_fails k"
      using over fresh Cons.prems
      by (auto simp: kmalloc_def is_duplicate_iff ENOMEM_def split: if_splits)
    with over fresh Cons.prems
    have "bridge_collect_loop cfg mx es (?a # l) (n + 1) r
            (k\<lparr>kmalloc_calls := Suc (kmalloc_calls k)\<rparr>) = (l', n', r', k')"
      by (simp add: kmalloc_def is_duplicate_iff)
    from Cons.IH [OF this Cons.prems(2-4)] show ?thesis by auto
  qed
qed

lemma bridge_collect_complete:
  assumes "batadv_mcast_mla_bridge_collect cfg soft l mx k = (ret, l', k')"
    and "0 \<le> ret" and "ret < mx"
  shows "batadv_mcast_mla_br_addr_cpy cfg ` set (snd (br_adjacent soft)) \<union> set l \<subseteq> set l'"
proof -
  obtain l1 n1 r1 k1 where
    loop: "bridge_collect_loop cfg mx (snd (br_adjacent soft)) l 0 (fst (br_adjacent soft)) k =
             (l1, n1, r1, k1)"
    using prod_cases4 by blast
  have nonneg: "0 \<le> fst (br_adjacent soft)"
    using assms(1,2)
    by (auto simp: batadv_mcast_mla_bridge_collect_def br_multicast_list_adjacent_def
          split: prod.splits if_splits)
  with loop assms(1) have res: "ret = (if r1 < 0 then r1 else n1)" "l' = l1"
    by (auto simp: batadv_mcast_mla_bridge_collect_def br_multicast_list_adjacent_def
          split: prod.splits)
  with assms(2,3) have "0 \<le> r1" "n1 < mx"
    by (auto split: if_splits)
  from bridge_collect_loop_complete [OF loop nonneg this] res(2) show ?thesis
    by simp
qed

text \<open>
  C8 (as the code has it). A fetched entry whose family is neither IPv4 nor IPv6 is
  converted to the all-zero address, and the bridge collector treats that address as
  any other: when the call succeeds below its budget the all-zero address is in the
  collected list, the reconciler puts it in the announced list, and it issues an
  addition to the translation table for it unless it was announced already. The
  counterexample is a cycle whose only candidate comes from such an entry.
\<close>

theorem unrecognized_family_is_announced:
  assumes "e \<in> set (snd (br_adjacent soft))"
    and "proto e \<noteq> htons ETH_P_IP" and "proto e \<noteq> htons ETH_P_IPV6"
    and "batadv_mcast_mla_bridge_collect cfg soft mcast_list num_mla_max k =
           (ret, mcast_list', k')"
    and "0 \<le> ret" and "ret < num_mla_max"
  shows "batadv_mcast_mla_br_addr_cpy cfg e = Mac 0 0 0 0 0 0
    \<and> Mac 0 0 0 0 0 0 \<in> set mcast_list'
    \<and> Mac 0 0 0 0 0 0 \<in> set (mla_list (fst (tt_update_update bat_priv mcast_list' k')))
    \<and> (Mac 0 0 0 0 0 0 \<notin> set (mla_list bat_priv) \<longrightarrow>
        Tt_local_add (Mac 0 0 0 0 0 0) \<in> set (tt (fst (tt_update_update bat_priv mcast_list' k'))))"
proof -
  have z: "batadv_mcast_mla_br_addr_cpy cfg e = Mac 0 0 0 0 0 0"
    using assms(2,3) by (simp add: batadv_mcast_mla_br_addr_cpy_def)
  from bridge_collect_complete [OF assms(4-6)] assms(1)
  have "batadv_mcast_mla_br_addr_cpy cfg e \<in> set mcast_list'"
    by blast
  then have c: "Mac 0 0 0 0 0 0 \<in> set mcast_list'"
    by (simp only: z)
  have m: "Mac 0 0 0 0 0 0 \<in> set (mla_list (fst (tt_update_update bat_priv mcast_list' k')))"
    using c unfolding tt_update_update_fst by auto
  have t: "Tt_local_add (Mac 0 0 0 0 0 0) \<in>
      set (tt (fst (tt_update_update bat_priv mcast_list' k')))"
    if "Mac 0 0 0 0 0 0 \<notin> set (mla_list bat_priv)"
    using c that unfolding tt_update_update_fst by auto
  from z c m t show ?thesis by blast
qed

theorem unrecognized_family_is_announced_witness:
  "batadv_mcast_mla_br_addr_cpy \<lparr>CONFIG_BATMAN_ADV_MCAST_BRIDGE_SNOOP = True, CONFIG_IPV6 = True\<rparr>
     \<lparr>u = [10, 0, 0, 1, 0, 0, 0, 0, 0, 0, 0, 0, 0, 0, 0, 0], proto = [8, 6]\<rparr> = Mac 0 0 0 0 0 0
   \<and> Tt_local_add (Mac 0 0 0 0 0 0) \<in> set (tt (fst (tt_update_update
        \<lparr>mla_list = [Mac 0x33 0x33 0 0 0 7], tt = [], mcast_group_awareness = 1,
         primary_if = None\<rparr>
        [Mac 0 0 0 0 0 0, Mac 0x33 0x33 0 0 0 7]
        \<lparr>kmalloc_fails = {}, kmalloc_calls = 1, kfree_calls = 1, printk = []\<rparr>)))"
  (is "batadv_mcast_mla_br_addr_cpy ?cfg ?e = _ \<and> _ \<in> set (tt (fst (tt_update_update ?bp ?l ?k')))")
proof -
  let ?soft = "Net_device None [] None None (1, [?e])"
  let ?k = "\<lparr>kmalloc_fails = {}, kmalloc_calls = 0, kfree_calls = 0, printk = []\<rparr>"
  have b: "batadv_mcast_mla_bridge_collect ?cfg ?soft [Mac 0x33 0x33 0 0 0 7] 254 ?k = (1, ?l, ?k')"
    by (simp add: batadv_mcast_mla_bridge_collect_def br_multicast_list_adjacent_def
          batadv_mcast_mla_br_addr_cpy_def htons_def ETH_P_IP_def ETH_P_IPV6_def
          kmalloc_def kfree_def)
  have e: "?e \<in> set (snd (br_adjacent ?soft))"
    and p4: "proto ?e \<noteq> htons ETH_P_IP" and p6: "proto ?e \<noteq> htons ETH_P_IPV6"
    by (simp_all add: htons_def ETH_P_IP_def ETH_P_IPV6_def)
  from unrecognized_family_is_announced [OF e p4 p6 b, of ?bp]
  show ?thesis by simp
qed

theorem unrecognized_family_counterexample:
  "batadv_mcast_mla_tt_update \<lparr>CONFIG_BATMAN_ADV_MCAST_BRIDGE_SNOOP = True, CONFIG_IPV6 = True\<rparr> 0
     \<lparr>mla_list = [], tt = [], mcast_group_awareness = 1,
      primary_if = Some \<lparr>soft_iface = Net_device None [] None None
        (1, [\<lparr>u = [10, 0, 0, 1, 0, 0, 0, 0, 0, 0, 0, 0, 0, 0, 0, 0], proto = [8, 6]\<rparr>])\<rparr>\<rparr>
     \<lparr>kmalloc_fails = {}, kmalloc_calls = 0, kfree_calls = 0, printk = []\<rparr>
   = (\<lparr>mla_list = [Mac 0 0 0 0 0 0], tt = [Tt_local_add (Mac 0 0 0 0 0 0)],
      mcast_group_awareness = 1,
      primary_if = Some \<lparr>soft_iface = Net_device None [] None None
        (1, [\<lparr>u = [10, 0, 0, 1, 0, 0, 0, 0, 0, 0, 0, 0, 0, 0, 0, 0], proto = [8, 6]\<rparr>])\<rparr>\<rparr>,
      [],
      \<lparr>kmalloc_fails = {}, kmalloc_calls = 1, kfree_calls = 1, printk = []\<rparr>)"
  by (simp add: batadv_mcast_mla_tt_update_def batadv_mcast_mla_local_collect_def
        batadv_mcast_mla_bridge_collect_def br_multicast_list_adjacent_def
        batadv_mcast_mla_br_addr_cpy_def htons_def ETH_P_IP_def ETH_P_IPV6_def
        kmalloc_def kfree_def BATADV_MLA_MAX_def UINT8_MAX_def
        tt_update_update_def batadv_mcast_mla_tt_clean_def batadv_mcast_mla_tt_add_def
        batadv_tt_local_add_def tt_update_out_def)

section \<open>No address twice\<close>

lemma tt_update_cases:
  "(\<exists>l k'. batadv_mcast_mla_tt_update cfg num_mla bp k = tt_update_out bp l k') \<or>
   (\<exists>l k'. batadv_mcast_mla_tt_update cfg num_mla bp k = tt_update_update bp l k')"
  unfolding batadv_mcast_mla_tt_update_def
  by (auto split: option.splits prod.splits)

lemma distinct_after_update:
  assumes "distinct (mla_list bp)"
  shows "distinct (mla_list (fst (tt_update_update bp cand k)))"
  unfolding tt_update_update_fst using assms by auto

text \<open>
  C10 (as the code has it). The local collector copies entries without looking for
  duplicates, so its list has no address twice provided the hardware multicast list of
  the device it reads has none and shares no address with the list it is given (the
  cycle gives it the empty list). The bridge collector and both steps of the reconciler
  keep a duplicate-free list duplicate-free, and so does a whole cycle for the announced
  list. The counterexample is a hardware list that holds one announceable address twice.
\<close>

theorem uniqueness_preserved:
  "(dev = (case master dev0 of Some m \<Rightarrow> m | None \<Rightarrow> dev0) \<and>
      distinct (mc dev) \<and> distinct l \<and> set (mc dev) \<inter> set l = {} \<longrightarrow>
      distinct (fst (snd (batadv_mcast_mla_local_collect dev0 l mx k))))
   \<and> (distinct l \<longrightarrow>
      distinct (fst (snd (batadv_mcast_mla_bridge_collect cfg soft l mx k))))
   \<and> (distinct (mla_list bat_priv) \<longrightarrow>
      distinct (mla_list (fst (batadv_mcast_mla_tt_clean bat_priv cand k))) \<and>
      distinct (mla_list (fst (batadv_mcast_mla_tt_add bat_priv cand))) \<and>
      distinct (mla_list (fst (batadv_mcast_mla_tt_update cfg num_mla bat_priv k))))"
proof (intro conjI impI)
  assume a: "dev = (case master dev0 of Some m \<Rightarrow> m | None \<Rightarrow> dev0) \<and>
      distinct (mc dev) \<and> distinct l \<and> set (mc dev) \<inter> set l = {}"
  then have d: "dev = (case master dev0 of Some m \<Rightarrow> m | None \<Rightarrow> dev0)"
    and dm: "distinct (mc dev)" and dl: "distinct l" and disj: "set (mc dev) \<inter> set l = {}"
    by blast+
  obtain ret l' k' where r: "batadv_mcast_mla_local_collect dev0 l mx k = (ret, l', k')"
    using prod_cases3 by blast
  from local_collect_shape [OF r d] obtain ys zs where
    f: "filter (\<lambda>e. batadv_mcast_mla_has_unspecial_addr e dev) (mc dev) = ys @ zs"
    and l': "l' = rev ys @ l"
    by blast
  from dm have "distinct (filter (\<lambda>e. batadv_mcast_mla_has_unspecial_addr e dev) (mc dev))"
    by (rule distinct_filter)
  then have "distinct ys"
    unfolding f by simp
  moreover have "set ys \<subseteq> set (mc dev)"
    using arg_cong [OF f, of set] by auto
  ultimately have "distinct l'"
    unfolding l' using dl disj by auto
  then show "distinct (fst (snd (batadv_mcast_mla_local_collect dev0 l mx k)))"
    unfolding r by simp
next
  assume a: "distinct l"
  obtain ret l' k' where r: "batadv_mcast_mla_bridge_collect cfg soft l mx k = (ret, l', k')"
    using prod_cases3 by blast
  from bridge_collect_shape [OF r] a have "distinct l'"
    by auto
  then show "distinct (fst (snd (batadv_mcast_mla_bridge_collect cfg soft l mx k)))"
    unfolding r by simp
next
  assume a: "distinct (mla_list bat_priv)"
  then show "distinct (mla_list (fst (batadv_mcast_mla_tt_clean bat_priv cand k)))"
    by (simp add: tt_clean_eq)
  from a show "distinct (mla_list (fst (batadv_mcast_mla_tt_add bat_priv cand)))"
    unfolding tt_add_fst by auto
  from tt_update_cases [of cfg num_mla bat_priv k] a
  show "distinct (mla_list (fst (batadv_mcast_mla_tt_update cfg num_mla bat_priv k)))"
    by (auto simp: tt_update_out_eq distinct_after_update)
qed

theorem uniqueness_preserved_witness:
  "distinct (fst (snd (batadv_mcast_mla_local_collect
       (Net_device None [Mac 0x01 0x00 0x5E 1 2 3, Mac 0x33 0x33 0 0 0 7]
          (Some [[0xff, 0x15, 0, 0, 0, 0, 0, 0, 0, 0, 0, 0, 0, 0, 0, 7]])
          (Some [[224, 1, 2, 3], [225, 1, 2, 3]])
          (1, [\<lparr>u = [239, 1, 2, 3, 0, 0, 0, 0, 0, 0, 0, 0, 0, 0, 0, 0], proto = [8, 0]\<rparr>]))
       [] 255 \<lparr>kmalloc_fails = {}, kmalloc_calls = 0, kfree_calls = 0, printk = []\<rparr>)))
   \<and> distinct (fst (snd (batadv_mcast_mla_bridge_collect
       \<lparr>CONFIG_BATMAN_ADV_MCAST_BRIDGE_SNOOP = True, CONFIG_IPV6 = True\<rparr>
       (Net_device None [Mac 0x01 0x00 0x5E 1 2 3, Mac 0x33 0x33 0 0 0 7]
          (Some [[0xff, 0x15, 0, 0, 0, 0, 0, 0, 0, 0, 0, 0, 0, 0, 0, 7]])
          (Some [[224, 1, 2, 3], [225, 1, 2, 3]])
          (1, [\<lparr>u = [239, 1, 2, 3, 0, 0, 0, 0, 0, 0, 0, 0, 0, 0, 0, 0], proto = [8, 0]\<rparr>]))
       [Mac 0x33 0x33 0 0 0 7, Mac 0x01 0x00 0x5E 1 2 3] 253
       \<lparr>kmalloc_fails = {}, kmalloc_calls = 2, kfree_calls = 0, printk = []\<rparr>)))
   \<and> distinct (mla_list (fst (batadv_mcast_mla_tt_update
       \<lparr>CONFIG_BATMAN_ADV_MCAST_BRIDGE_SNOOP = True, CONFIG_IPV6 = True\<rparr> 2
       \<lparr>mla_list = [Mac 0x33 0x33 0 0 0 7, Mac 0x33 0x33 0 0 0 8], tt = [],
        mcast_group_awareness = 1,
        primary_if = Some \<lparr>soft_iface =
          Net_device None [Mac 0x01 0x00 0x5E 1 2 3, Mac 0x33 0x33 0 0 0 7]
            (Some [[0xff, 0x15, 0, 0, 0, 0, 0, 0, 0, 0, 0, 0, 0, 0, 0, 7]])
            (Some [[224, 1, 2, 3], [225, 1, 2, 3]])
            (1, [\<lparr>u = [239, 1, 2, 3, 0, 0, 0, 0, 0, 0, 0, 0, 0, 0, 0, 0], proto = [8, 0]\<rparr>])\<rparr>\<rparr>
       \<lparr>kmalloc_fails = {}, kmalloc_calls = 0, kfree_calls = 0, printk = []\<rparr>)))"
  (is "distinct (fst (snd (batadv_mcast_mla_local_collect ?soft [] 255 ?k))) \<and>
       distinct (fst (snd (batadv_mcast_mla_bridge_collect ?cfg _ ?l 253 ?k2))) \<and>
       distinct (mla_list (fst (batadv_mcast_mla_tt_update _ 2 ?bp _)))")
proof -
  have h1: "?soft = (case master ?soft of Some m \<Rightarrow> m | None \<Rightarrow> ?soft) \<and>
      distinct (mc ?soft) \<and> distinct ([] :: mac list) \<and> set (mc ?soft) \<inter> set [] = {}"
    by simp
  have h2: "distinct ?l"
    by simp
  have h3: "distinct (mla_list ?bp)"
    by simp
  from uniqueness_preserved [where dev = ?soft and ?dev0.0 = ?soft and l = "[]" and k = ?k
      and mx = 255 and bat_priv = ?bp] h1
  have c1: "distinct (fst (snd (batadv_mcast_mla_local_collect ?soft [] 255 ?k)))"
    by (rule conjunct1 [THEN mp])
  from uniqueness_preserved [where l = ?l and k = ?k2 and mx = 253 and cfg = ?cfg
      and soft = ?soft and bat_priv = ?bp] h2
  have c2: "distinct (fst (snd (batadv_mcast_mla_bridge_collect ?cfg ?soft ?l 253 ?k2)))"
    by (rule conjunct2 [THEN conjunct1, THEN mp])
  from uniqueness_preserved [where k = ?k and cfg = ?cfg and bat_priv = ?bp and num_mla = 2] h3
  have c3: "distinct (mla_list (fst (batadv_mcast_mla_tt_update ?cfg 2 ?bp ?k)))"
    by (rule conjunct2 [THEN conjunct2, THEN mp, THEN conjunct2, THEN conjunct2])
  from c1 c2 c3 show ?thesis
    by (intro conjI)
qed

theorem local_collect_duplicates_counterexample:
  "fst (snd (batadv_mcast_mla_local_collect
       (Net_device None [Mac 0x01 0x00 0x5E 1 2 3, Mac 0x01 0x00 0x5E 1 2 3] None
          (Some [[224, 1, 2, 3]]) (0, []))
       [] 255 \<lparr>kmalloc_fails = {}, kmalloc_calls = 0, kfree_calls = 0, printk = []\<rparr>))
   = [Mac 0x01 0x00 0x5E 1 2 3, Mac 0x01 0x00 0x5E 1 2 3]"
  by (simp add: batadv_mcast_mla_local_collect_def batadv_mcast_mla_has_non_ll_ipv4_def
        ip_eth_mc_map_bytes ipv4_is_local_multicast_bytes kmalloc_def ENOMEM_def)

section \<open>The bound on the number of announcements\<close>

lemma local_collect_loop_all:
  "\<forall>e \<in> set es. batadv_mcast_mla_has_unspecial_addr e dev \<Longrightarrow> kmalloc_fails k = {} \<Longrightarrow>
   n + int (length es) \<le> mx \<Longrightarrow>
   local_collect_loop dev mx es l n r k =
     (rev es @ l, n + int (length es), r, k\<lparr>kmalloc_calls := kmalloc_calls k + length es\<rparr>)"
proof (induction es arbitrary: l n k)
  case Nil
  then show ?case by simp
next
  case (Cons e es)
  from Cons.prems have "\<not> n \<ge> mx" "batadv_mcast_mla_has_unspecial_addr e dev"
    by auto
  moreover from Cons.prems
  have "local_collect_loop dev mx es (e # l) (n + 1) r (k\<lparr>kmalloc_calls := Suc (kmalloc_calls k)\<rparr>) =
     (rev es @ e # l, n + 1 + int (length es), r,
      k\<lparr>kmalloc_calls := Suc (kmalloc_calls k) + length es\<rparr>)"
    using Cons.IH [of "k\<lparr>kmalloc_calls := Suc (kmalloc_calls k)\<rparr>" "n + 1" "e # l"]
    by simp
  ultimately show ?case
    using Cons.prems(2) by (simp add: kmalloc_def del: batadv_mcast_mla_has_unspecial_addr.simps)
qed

text \<open>
  The local collector by itself keeps to its bound: on a device with more announceable
  addresses than \<^verbatim>\<open>BATADV_MLA_MAX\<close> it keeps the first 255, logs the warning once and
  returns the count, not an error.
\<close>

lemma local_collect_loop_truncates:
  "\<forall>e \<in> set es. batadv_mcast_mla_has_unspecial_addr e dev \<Longrightarrow> kmalloc_fails k = {} \<Longrightarrow>
   n \<le> mx \<Longrightarrow> mx < n + int (length es) \<Longrightarrow>
   local_collect_loop dev mx es l n r k =
     (rev (take (nat (mx - n)) es) @ l, mx, r,
      k\<lparr>kmalloc_calls := kmalloc_calls k + nat (mx - n),
        printk := printk k @ [Too_many_local mx]\<rparr>)"
proof (induction es arbitrary: l n k)
  case Nil
  then show ?case by simp
next
  case (Cons e es)
  show ?case
  proof (cases "n = mx")
    case True
    then show ?thesis by (simp add: pr_warn_def)
  next
    case False
    with Cons.prems have lt: "n < mx" and e: "batadv_mcast_mla_has_unspecial_addr e dev"
      by auto
    have "nat (mx - n) = Suc (nat (mx - (n + 1)))"
      using lt by simp
    then have t: "take (nat (mx - n)) (e # es) = e # take (nat (mx - (n + 1))) es"
      by (simp only: take_Suc_Cons)
    have c: "kmalloc_calls k + nat (mx - n) = Suc (kmalloc_calls k) + nat (mx - (n + 1))"
      using lt by simp
    from lt Cons.prems
    have "local_collect_loop dev mx es (e # l) (n + 1) r (k\<lparr>kmalloc_calls := Suc (kmalloc_calls k)\<rparr>) =
     (rev (take (nat (mx - (n + 1))) es) @ e # l, mx, r,
      k\<lparr>kmalloc_calls := Suc (kmalloc_calls k) + nat (mx - (n + 1)),
        printk := printk k @ [Too_many_local mx]\<rparr>)"
      using Cons.IH [of "k\<lparr>kmalloc_calls := Suc (kmalloc_calls k)\<rparr>" "n + 1" "e # l"]
      by simp
    with lt e Cons.prems(2) show ?thesis
      unfolding t c
      by (simp add: kmalloc_def del: batadv_mcast_mla_has_unspecial_addr.simps)
  qed
qed

lemma local_collect_truncates:
  assumes "master dev = None"
    and "\<forall>e \<in> set (mc dev). batadv_mcast_mla_has_unspecial_addr e dev"
    and "kmalloc_fails k = {}" and "BATADV_MLA_MAX < int (length (mc dev))"
  shows "batadv_mcast_mla_local_collect dev [] BATADV_MLA_MAX k =
     (BATADV_MLA_MAX, rev (take 255 (mc dev)),
      k\<lparr>kmalloc_calls := kmalloc_calls k + 255,
        printk := printk k @ [Too_many_local BATADV_MLA_MAX]\<rparr>)"
  using local_collect_loop_truncates [OF assms(2,3), of 0 BATADV_MLA_MAX "[]" 0] assms(1,4)
  by (simp add: batadv_mcast_mla_local_collect_def BATADV_MLA_MAX_def UINT8_MAX_def)






text \<open>
  The identifier \<^verbatim>\<open>num_mla\<close> in the budget of the bridge collector is not declared in
  \<^verbatim>\<open>batadv_mcast_mla_tt_update\<close>, and the bound below needs it to stand for the number of
  entries collected locally: read as 0, the model of a device with 255 announceable
  addresses and one more group snooped on the bridge ends the cycle with 256 announced
  addresses.
\<close>

lemma budget_hypothesis_needed:
  "length (mla_list (fst (batadv_mcast_mla_tt_update
       \<lparr>CONFIG_BATMAN_ADV_MCAST_BRIDGE_SNOOP = True, CONFIG_IPV6 = True\<rparr> 0
       \<lparr>mla_list = [], tt = [], mcast_group_awareness = 1,
        primary_if = Some \<lparr>soft_iface =
          Net_device None (map (\<lambda>i. Mac 0x01 0x00 0x5E 1 1 (of_nat i)) [0..<255]) None
            (Some (map (\<lambda>i. [239, 1, 1, of_nat i]) [0..<255]))
            (1, [\<lparr>u = [239, 1, 2, 0, 0, 0, 0, 0, 0, 0, 0, 0, 0, 0, 0, 0], proto = [8, 0]\<rparr>])\<rparr>\<rparr>
       \<lparr>kmalloc_fails = {}, kmalloc_calls = 0, kfree_calls = 0, printk = []\<rparr>))) = 256"
  (is "length (mla_list (fst (batadv_mcast_mla_tt_update ?cfg 0 ?bp ?k))) = 256")
proof -
  let ?mcs = "map (\<lambda>i. Mac 0x01 0x00 0x5E 1 1 (of_nat i)) [0..<255]"
  let ?groups = "map (\<lambda>i. [239, 1, 1, of_nat i] :: u8 list) [0..<255]"
  let ?e = "\<lparr>u = [239, 1, 2, 0, 0, 0, 0, 0, 0, 0, 0, 0, 0, 0, 0, 0], proto = [8, 0]\<rparr>"
  let ?soft = "Net_device None ?mcs None (Some ?groups) (1, [?e])"
  let ?new = "Mac 0x01 0x00 0x5E 1 2 0"
  have unspecial: "\<forall>a \<in> set ?mcs. batadv_mcast_mla_has_unspecial_addr a ?soft"
    by (auto simp: batadv_mcast_mla_has_non_ll_ipv4_def has_non_ll_ipv4_loop_iff
          ip_eth_mc_map_bytes ipv4_is_local_multicast_bytes)
  have inj: "inj_on (\<lambda>i. Mac 0x01 0x00 0x5E 1 1 (of_nat i)) {0..<255}"
  proof (rule inj_onI)
    fix x y :: nat
    assume "x \<in> {0..<255}" "y \<in> {0..<255}"
      and "Mac 0x01 0x00 0x5E 1 1 (of_nat x) = Mac 0x01 0x00 0x5E 1 1 (of_nat y)"
    then have "x < 2 ^ LENGTH(8)" "y < 2 ^ LENGTH(8)" "(of_nat x :: u8) = of_nat y"
      by simp_all
    then show "x = y"
      by (simp add: word_of_nat_eq_iff take_bit_nat_eq_self)
  qed
  have distinct_mcs: "distinct ?mcs"
    by (simp add: distinct_map inj)
  have fresh: "?new \<notin> set ?mcs"
    by auto
  have local: "batadv_mcast_mla_local_collect ?soft [] BATADV_MLA_MAX ?k =
      (255, rev ?mcs, ?k\<lparr>kmalloc_calls := 255\<rparr>)"
    using local_collect_loop_all [OF unspecial, of ?k 0 255 "[]" 0]
    by (simp add: batadv_mcast_mla_local_collect_def BATADV_MLA_MAX_def UINT8_MAX_def)
  have bridge: "batadv_mcast_mla_bridge_collect ?cfg ?soft (rev ?mcs) (BATADV_MLA_MAX - 0)
      (?k\<lparr>kmalloc_calls := 255\<rparr>) =
      (1, ?new # rev ?mcs, ?k\<lparr>kmalloc_calls := 256, kfree_calls := 1\<rparr>)"
    using fresh
    by (simp add: batadv_mcast_mla_bridge_collect_def br_multicast_list_adjacent_def
          batadv_mcast_mla_br_addr_cpy_def htons_def ETH_P_IP_def is_duplicate_iff
          kmalloc_def kfree_def BATADV_MLA_MAX_def UINT8_MAX_def del: set_map set_upt)
  have cycle: "batadv_mcast_mla_tt_update ?cfg 0 ?bp ?k =
      tt_update_update ?bp (?new # rev ?mcs) (?k\<lparr>kmalloc_calls := 256, kfree_calls := 1\<rparr>)"
    using local bridge by (simp add: batadv_mcast_mla_tt_update_def)
  have "distinct (?new # rev ?mcs)"
    using fresh distinct_mcs by simp
  then have "first_seen (?new # rev ?mcs) = ?new # rev ?mcs"
    by (simp only: distinct_rev distinct_remdups_id rev_rev_ident)
  then have "mla_list (fst (batadv_mcast_mla_tt_update ?cfg 0 ?bp ?k)) = ?new # rev ?mcs"
    unfolding cycle tt_update_update_fst by simp
  then show ?thesis
    by simp
qed




end
